theory Spec2Isabelle
  imports Main "HOL-Library.AList"
begin

section \<open>Python values and exceptions\<close>

text \<open>
  The program is Python 3. A Python \<open>str\<close> is modelled as a \<open>string\<close>; a \<open>char\<close> stands
  for one code point below 256, so the model covers text of that range. \<open>bytes\<close> are
  \<open>string\<close>s too, and \<open>encode\<close>/\<open>decode\<close> are only ever applied to the output of
  \<open>json.dumps\<close> (pure ASCII) and to file contents.

  \<open>pyval\<close> is the universe of values that flow through the settings mapping, the request
  fields and the arguments of an exception: \<open>None\<close>, booleans, integers, strings, bytes,
  lists and dictionaries (an association list in insertion order). Floating point numbers
  are not part of the model.
\<close>

datatype pyval =
    PNone
  | PBool bool
  | PInt int
  | PStr string
  | PBytes string
  | PList "pyval list"
  | PDict "(string \<times> pyval) list"

text \<open>
  The exceptions the program raises or lets through. \<open>UserError args message\<close> is the
  class of lines 35-37: \<open>args\<close> is the tuple \<open>BaseException.__new__\<close> stores (all the
  constructor's arguments, the template first), \<open>message\<close> the attribute \<open>__init__\<close> sets.
  \<open>SystemExit n\<close> is how \<open>argparse\<close> leaves on a usage error (\<open>n = 2\<close>).
  \<open>Outside_model\<close> is no Python exception: it marks a run that leaves what is modelled
  (a settings file that holds a floating point number or text beyond code point 255).
\<close>

datatype exc =
    UserError "pyval list" string
  | KeyboardInterrupt
  | SystemExit int
  | FileNotFoundError
  | FileExistsError
  | IsADirectoryError
  | NotADirectoryError
  | JSONDecodeError
  | TypeError
  | AttributeError
  | IndexError
  | ValueError
  | ConnectionError
  | OSError
  | Outside_model

subsection \<open>\<open>str\<close> and \<open>repr\<close>\<close>

definition digit_char :: "nat \<Rightarrow> char" where
  "digit_char d = char_of (of_char CHR ''0'' + d :: nat)"

fun nat_digits :: "nat \<Rightarrow> nat \<Rightarrow> string" where
  "nat_digits 0 n = []"
| "nat_digits (Suc fuel) n =
     (if n < 10 then [digit_char n] else nat_digits fuel (n div 10) @ [digit_char (n mod 10)])"

definition str_nat :: "nat \<Rightarrow> string" where
  "str_nat n = nat_digits (Suc n) n"

definition str_int :: "int \<Rightarrow> string" where
  "str_int i = (if i < 0 then CHR ''-'' # str_nat (nat (- i)) else str_nat (nat i))"

definition hex_char :: "nat \<Rightarrow> char" where
  "hex_char d = (if d < 10 then digit_char d else char_of (of_char CHR ''a'' + (d - 10) :: nat))"

definition newline :: char where
  "newline = CHR 0x0A"

definition printable_ascii :: "char \<Rightarrow> bool" where
  "printable_ascii c = (32 \<le> (of_char c :: nat) \<and> (of_char c :: nat) < 127)"

text \<open>\<open>str.isprintable\<close> on the code points below 256.\<close>

definition printable :: "char \<Rightarrow> bool" where
  "printable c = (printable_ascii c \<or> (161 \<le> (of_char c :: nat) \<and> (of_char c :: nat) \<noteq> 173))"

text \<open>
  \<open>repr\<close> of a \<open>str\<close> or \<open>bytes\<close>: double quotes when the text holds a single quote and no
  double quote, single quotes otherwise; the quote and the backslash are escaped,
  \<open>\t\<close>, \<open>\n\<close>, \<open>\r\<close> have their short forms and every other character that is not
  printable is written \<open>\xhh\<close>. The first argument says what is printable: for a \<open>str\<close>
  what \<open>str.isprintable\<close> accepts, for \<open>bytes\<close> the printable ASCII characters.
\<close>

definition repr_quote :: "string \<Rightarrow> char" where
  "repr_quote s = (if CHR 0x27 \<in> set s \<and> CHR 0x22 \<notin> set s then CHR 0x22 else CHR 0x27)"

definition repr_char :: "(char \<Rightarrow> bool) \<Rightarrow> char \<Rightarrow> char \<Rightarrow> string" where
  "repr_char pr q c =
     (if c = q \<or> c = CHR 0x5C then [CHR 0x5C, c]
      else if c = CHR 0x09 then [CHR 0x5C, CHR ''t'']
      else if c = newline then [CHR 0x5C, CHR ''n'']
      else if c = CHR 0x0D then [CHR 0x5C, CHR ''r'']
      else if pr c then [c]
      else [CHR 0x5C, CHR ''x'', hex_char (of_char c div 16), hex_char (of_char c mod 16)])"

definition repr_text :: "(char \<Rightarrow> bool) \<Rightarrow> string \<Rightarrow> string" where
  "repr_text pr s = (let q = repr_quote s in [q] @ concat (map (repr_char pr q) s) @ [q])"

fun join :: "string \<Rightarrow> string list \<Rightarrow> string" where
  "join sep [] = []"
| "join sep [x] = x"
| "join sep (x # y # ys) = x @ sep @ join sep (y # ys)"

text \<open>
  \<open>repr\<close> and \<open>str\<close> on \<open>pyval\<close>. They differ on strings only. A tuple of exception
  arguments is printed by \<open>repr_tuple\<close>.
\<close>

fun repr :: "pyval \<Rightarrow> string" where
  "repr PNone = ''None''"
| "repr (PBool b) = (if b then ''True'' else ''False'')"
| "repr (PInt i) = str_int i"
| "repr (PStr s) = repr_text printable s"
| "repr (PBytes s) = CHR ''b'' # repr_text printable_ascii s"
| "repr (PList xs) = ''['' @ join '', '' (map repr xs) @ '']''"
| "repr (PDict kvs) =
     ''{'' @ join '', '' (map (\<lambda>(k, v). repr_text printable k @ '': '' @ repr v) kvs) @ ''}''"

definition str :: "pyval \<Rightarrow> string" where
  "str v = (case v of PStr s \<Rightarrow> s | _ \<Rightarrow> repr v)"

definition repr_tuple :: "pyval list \<Rightarrow> string" where
  "repr_tuple vs =
     (case vs of
        [] \<Rightarrow> ''()''
      | [v] \<Rightarrow> ''('' @ repr v @ '',)''
      | _ \<Rightarrow> ''('' @ join '', '' (map repr vs) @ '')'')"

text \<open>
  \<open>BaseException.__str__\<close>: the empty string for no arguments, \<open>str\<close> of the argument when
  there is one, \<open>str\<close> of the tuple otherwise. The program's handler prints a
  \<open>UserError\<close> this way (line 221); the other exceptions are never printed by it.
\<close>

definition str_args :: "pyval list \<Rightarrow> string" where
  "str_args vs = (case vs of [] \<Rightarrow> [] | [v] \<Rightarrow> str v | _ \<Rightarrow> repr_tuple vs)"

subsection \<open>\<open>str.format\<close>\<close>

text \<open>
  \<open>template.format(*args)\<close> for templates whose replacement fields are all the
  automatic \<open>{}\<close>: each field takes the next argument's \<open>str\<close>, \<open>{{\<close> and \<open>}}\<close> are
  literal braces. Too few arguments raise \<open>IndexError\<close>, a lone brace \<open>ValueError\<close>; the
  arguments come already converted by \<open>str\<close>.
\<close>

fun format :: "string \<Rightarrow> string list \<Rightarrow> exc + string" where
  "format [] as = Inr []"
| "format (c # cs) as =
     (if c = CHR ''{'' then
        (case cs of
           d # ds \<Rightarrow>
             if d = CHR ''}'' then
               (case as of
                  [] \<Rightarrow> Inl IndexError
                | a # as' \<Rightarrow> (case format ds as' of Inl e \<Rightarrow> Inl e | Inr r \<Rightarrow> Inr (a @ r)))
             else if d = CHR ''{'' then
               (case format ds as of Inl e \<Rightarrow> Inl e | Inr r \<Rightarrow> Inr (CHR ''{'' # r))
             else Inl ValueError
         | [] \<Rightarrow> Inl ValueError)
      else if c = CHR ''}'' then
        (case cs of
           d # ds \<Rightarrow>
             if d = CHR ''}'' then
               (case format ds as of Inl e \<Rightarrow> Inl e | Inr r \<Rightarrow> Inr (CHR ''}'' # r))
             else Inl ValueError
         | [] \<Rightarrow> Inl ValueError)
      else (case format cs as of Inl e \<Rightarrow> Inl e | Inr r \<Rightarrow> Inr (c # r)))"

section \<open>\<open>UserError\<close> (lines 35-37)\<close>

text \<open>
  \<open>UserError(msg, *args)\<close>: \<open>__init__\<close> formats the template into \<open>self.message\<close>; the
  exception's own \<open>args\<close> tuple holds the template and the arguments as given. The value
  is what a \<open>raise UserError(...)\<close> statement raises (the formatting error, should the
  template not fit its arguments).
\<close>

definition new_UserError :: "string \<Rightarrow> pyval list \<Rightarrow> exc" where
  "new_UserError msg args =
     (case format msg (map str args) of
        Inl e \<Rightarrow> e
      | Inr m \<Rightarrow> UserError (PStr msg # args) m)"

section \<open>Argument types (lines 69-84)\<close>

subsection \<open>The pattern of \<open>api_key_type\<close>\<close>

text \<open>
  \<open>re.match('[0-9a-f]{40}$', value)\<close>. The pattern is a sequence of two kinds of items:
  a character set repeated a fixed number of times, and \<open>$\<close>, which in Python matches at
  the end of the text and also just before a newline that ends the text. \<open>re.match\<close>
  anchors at the start only.
\<close>

datatype re_item =
    Set_repeat "(char \<times> char) list" nat
  | Dollar

fun in_ranges :: "(char \<times> char) list \<Rightarrow> char \<Rightarrow> bool" where
  "in_ranges [] c = False"
| "in_ranges ((lo, hi) # rs) c =
     (((of_char lo :: nat) \<le> of_char c \<and> (of_char c :: nat) \<le> of_char hi) \<or> in_ranges rs c)"

fun match_set :: "(char \<times> char) list \<Rightarrow> nat \<Rightarrow> string \<Rightarrow> string option" where
  "match_set rs 0 s = Some s"
| "match_set rs (Suc n) [] = None"
| "match_set rs (Suc n) (c # cs) = (if in_ranges rs c then match_set rs n cs else None)"

fun re_match :: "re_item list \<Rightarrow> string \<Rightarrow> bool" where
  "re_match [] s = True"
| "re_match (Set_repeat rs n # p) s =
     (case match_set rs n s of None \<Rightarrow> False | Some r \<Rightarrow> re_match p r)"
| "re_match (Dollar # p) s = ((s = [] \<or> s = [newline]) \<and> re_match p s)"

definition api_key_pattern :: "re_item list" where
  "api_key_pattern = [Set_repeat [(CHR ''0'', CHR ''9''), (CHR ''a'', CHR ''f'')] 40, Dollar]"

definition api_key_type :: "string \<Rightarrow> exc + string" where
  "api_key_type v =
     (if \<not> re_match api_key_pattern v then Inl (new_UserError ''Invalid API key specified.'' [])
      else Inr v)"

definition api_argument_type :: "string \<Rightarrow> string" where
  "api_argument_type v = (if v = ''0'' then v @ '' '' else v)"

text \<open>What the specification calls a lowercase hexadecimal digit.\<close>

definition lower_hex :: "char \<Rightarrow> bool" where
  "lower_hex c = (c \<in> set ''0123456789abcdef'')"

section \<open>JSON (\<open>json.dumps\<close>, \<open>json.loads\<close>)\<close>

subsection \<open>Dictionaries\<close>

text \<open>
  A Python \<open>dict\<close> with string keys is an association list in insertion order with
  distinct keys. \<open>d[k] = v\<close> replaces the value of a key that is present, where it
  stands, and appends a new key; \<open>d.get(k, default)\<close> looks the key up.
\<close>

definition dict_set :: "(string \<times> pyval) list \<Rightarrow> string \<Rightarrow> pyval \<Rightarrow> (string \<times> pyval) list" where
  "dict_set d k v = AList.update k v d"

definition dict_get :: "(string \<times> pyval) list \<Rightarrow> string \<Rightarrow> pyval \<Rightarrow> pyval" where
  "dict_get d k dflt = (case map_of d k of None \<Rightarrow> dflt | Some v \<Rightarrow> v)"

text \<open>\<open>dict(pairs)\<close>: the pairs are stored one after the other.\<close>

definition dict_of_pairs :: "(string \<times> pyval) list \<Rightarrow> (string \<times> pyval) list" where
  "dict_of_pairs ps = foldl (\<lambda>d (k, v). dict_set d k v) [] ps"

subsection \<open>Serialising\<close>

text \<open>
  \<open>json.dumps\<close> with its defaults (\<open>ensure_ascii\<close>, separators \<open>', '\<close> and \<open>': '\<close>). In a
  string the double quote, the backslash and the control characters with a short form
  are escaped by a backslash, every other character outside the printable ASCII range
  becomes \<open>\u00hh\<close>. A \<open>bytes\<close> value is not serialisable (\<open>TypeError\<close>).
\<close>

definition dq :: char where
  "dq = CHR 0x22"

definition bs :: char where
  "bs = CHR 0x5C"

definition json_escape_char :: "char \<Rightarrow> string" where
  "json_escape_char c =
     (if c = dq then [bs, dq]
      else if c = bs then [bs, bs]
      else if c = newline then [bs, CHR ''n'']
      else if c = CHR 0x0D then [bs, CHR ''r'']
      else if c = CHR 0x09 then [bs, CHR ''t'']
      else if c = CHR 0x08 then [bs, CHR ''b'']
      else if c = CHR 0x0C then [bs, CHR ''f'']
      else if printable_ascii c then [c]
      else [bs, CHR ''u'', CHR ''0'', CHR ''0'',
            hex_char (of_char c div 16), hex_char (of_char c mod 16)])"

definition json_string :: "string \<Rightarrow> string" where
  "json_string s = [dq] @ concat (map json_escape_char s) @ [dq]"

fun json_dumps :: "pyval \<Rightarrow> exc + string"
  and dumps_items :: "pyval list \<Rightarrow> exc + string"
  and dumps_pairs :: "(string \<times> pyval) list \<Rightarrow> exc + string"
where
  "json_dumps PNone = Inr ''null''"
| "json_dumps (PBool b) = Inr (if b then ''true'' else ''false'')"
| "json_dumps (PInt i) = Inr (str_int i)"
| "json_dumps (PStr s) = Inr (json_string s)"
| "json_dumps (PBytes s) = Inl TypeError"
| "json_dumps (PList xs) =
     (case dumps_items xs of Inl e \<Rightarrow> Inl e | Inr t \<Rightarrow> Inr (''['' @ t @ '']''))"
| "json_dumps (PDict kvs) =
     (case dumps_pairs kvs of Inl e \<Rightarrow> Inl e | Inr t \<Rightarrow> Inr (''{'' @ t @ ''}''))"
| "dumps_items [] = Inr []"
| "dumps_items (x # xs) =
     (case json_dumps x of
        Inl e \<Rightarrow> Inl e
      | Inr t \<Rightarrow>
          if xs = [] then Inr t
          else (case dumps_items xs of Inl e \<Rightarrow> Inl e | Inr ts \<Rightarrow> Inr (t @ '', '' @ ts)))"
| "dumps_pairs [] = Inr []"
| "dumps_pairs (kv # kvs) =
     (case json_dumps (snd kv) of
        Inl e \<Rightarrow> Inl e
      | Inr t \<Rightarrow>
          if kvs = [] then Inr (json_string (fst kv) @ '': '' @ t)
          else (case dumps_pairs kvs of
                  Inl e \<Rightarrow> Inl e
                | Inr ts \<Rightarrow> Inr (json_string (fst kv) @ '': '' @ t @ '', '' @ ts)))"

subsection \<open>Parsing\<close>

text \<open>
  \<open>json.loads\<close>: the scanner of the \<open>json\<close> module. A parse step returns the value and
  the rest of the text, or fails: \<open>Decode_error\<close> is \<open>JSONDecodeError\<close>, \<open>Not_modelled\<close> a
  floating point literal or a character beyond code point 255, \<open>No_fuel\<close> the end of the
  recursion budget (\<open>json_loads\<close> gives a budget that is never used up, see
  \<open>scan_once_fuel\<close>).
\<close>

datatype fail = Decode_error | Not_modelled | No_fuel

definition is_ws :: "char \<Rightarrow> bool" where
  "is_ws c = (c = CHR '' '' \<or> c = CHR 0x09 \<or> c = newline \<or> c = CHR 0x0D)"

definition skip_ws :: "string \<Rightarrow> string" where
  "skip_ws s = dropWhile is_ws s"

definition is_digit :: "char \<Rightarrow> bool" where
  "is_digit c = ((of_char CHR ''0'' :: nat) \<le> of_char c \<and> (of_char c :: nat) \<le> of_char CHR ''9'')"

definition digit_value :: "char \<Rightarrow> nat" where
  "digit_value c = of_char c - of_char CHR ''0''"

definition hex_value :: "char \<Rightarrow> nat option" where
  "hex_value c =
     (let n = (of_char c :: nat) in
      if of_char CHR ''0'' \<le> n \<and> n \<le> of_char CHR ''9'' then Some (n - of_char CHR ''0'')
      else if of_char CHR ''a'' \<le> n \<and> n \<le> of_char CHR ''f'' then Some (n - of_char CHR ''a'' + 10)
      else if of_char CHR ''A'' \<le> n \<and> n \<le> of_char CHR ''F'' then Some (n - of_char CHR ''A'' + 10)
      else None)"

text \<open>The four hexadecimal digits of a \<open>\uXXXX\<close> escape.\<close>

definition decode_uXXXX :: "char \<Rightarrow> char \<Rightarrow> char \<Rightarrow> char \<Rightarrow> nat option" where
  "decode_uXXXX a b c d =
     (case (hex_value a, hex_value b, hex_value c, hex_value d) of
        (Some x, Some y, Some z, Some w) \<Rightarrow> Some (((x * 16 + y) * 16 + z) * 16 + w)
      | _ \<Rightarrow> None)"

definition backslash :: "char \<Rightarrow> char option" where
  "backslash e =
     (if e = dq then Some dq
      else if e = bs then Some bs
      else if e = CHR ''/'' then Some CHR ''/''
      else if e = CHR ''b'' then Some (CHR 0x08)
      else if e = CHR ''f'' then Some (CHR 0x0C)
      else if e = CHR ''n'' then Some newline
      else if e = CHR ''r'' then Some (CHR 0x0D)
      else if e = CHR ''t'' then Some (CHR 0x09)
      else None)"

definition prepend :: "char \<Rightarrow> fail + string \<times> string \<Rightarrow> fail + string \<times> string" where
  "prepend c r = (case r of Inl e \<Rightarrow> Inl e | Inr (t, rest) \<Rightarrow> Inr (c # t, rest))"

text \<open>
  \<open>scanstring\<close> (strict): the text after the opening quote, up to the closing one. A
  control character or an unknown escape is an error.
\<close>

fun scanstring :: "string \<Rightarrow> fail + string \<times> string" where
  "scanstring [] = Inl Decode_error"
| "scanstring (c # cs) =
     (if c = dq then Inr ([], cs)
      else if c = bs then
        (case cs of
           [] \<Rightarrow> Inl Decode_error
         | e # es \<Rightarrow>
             if e = CHR ''u'' then
               (case es of
                  h1 # h2 # h3 # h4 # rest \<Rightarrow>
                    (case decode_uXXXX h1 h2 h3 h4 of
                       None \<Rightarrow> Inl Decode_error
                     | Some n \<Rightarrow>
                         if n < 256 then prepend (char_of n) (scanstring rest)
                         else Inl Not_modelled)
                | _ \<Rightarrow> Inl Decode_error)
             else
               (case backslash e of
                  None \<Rightarrow> Inl Decode_error
                | Some ch \<Rightarrow> prepend ch (scanstring es)))
      else if (of_char c :: nat) < 32 then Inl Decode_error
      else prepend c (scanstring cs))"

text \<open>
  The number pattern \<open>(-?(?:0|[1-9]\d*))(\.\d+)?([eE][-+]?\d+)?\<close>: \<open>None\<close> when the text
  does not start with a number; a fraction or an exponent makes it a float.
\<close>

definition digits_value :: "string \<Rightarrow> nat" where
  "digits_value ds = foldl (\<lambda>a c. 10 * a + digit_value c) 0 ds"

definition starts_with_digit :: "string \<Rightarrow> bool" where
  "starts_with_digit s = (case s of [] \<Rightarrow> False | c # _ \<Rightarrow> is_digit c)"

definition has_frac_or_exp :: "string \<Rightarrow> bool" where
  "has_frac_or_exp s =
     (case s of
        [] \<Rightarrow> False
      | c # cs \<Rightarrow>
          if c = CHR ''.'' then starts_with_digit cs
          else if c = CHR ''e'' \<or> c = CHR ''E'' then
            (case cs of
               [] \<Rightarrow> False
             | d # ds \<Rightarrow> if d = CHR ''+'' \<or> d = CHR ''-'' then starts_with_digit ds else is_digit d)
          else False)"

definition match_integer :: "string \<Rightarrow> (string \<times> string) option" where
  "match_integer s =
     (case s of
        [] \<Rightarrow> None
      | c # cs \<Rightarrow>
          if c = CHR ''0'' then Some ([c], cs)
          else if is_digit c then Some (c # takeWhile is_digit cs, dropWhile is_digit cs)
          else None)"

definition match_number :: "string \<Rightarrow> (fail + pyval \<times> string) option" where
  "match_number s =
     (let neg = (s \<noteq> [] \<and> hd s = CHR ''-'') in
      case match_integer (if neg then tl s else s) of
        None \<Rightarrow> None
      | Some (ds, rest) \<Rightarrow>
          if has_frac_or_exp rest then Some (Inl Not_modelled)
          else Some (Inr (PInt (if neg then - int (digits_value ds) else int (digits_value ds)), rest)))"

definition starts_with :: "string \<Rightarrow> string \<Rightarrow> bool" where
  "starts_with p s = (take (length p) s = p)"

text \<open>
  \<open>scan_once\<close> with the array and the object parser. \<open>array_items\<close> stands at a value,
  \<open>object_items\<close> just after the opening quote of a key; both carry what they have read.
\<close>

fun scan_once :: "nat \<Rightarrow> string \<Rightarrow> fail + pyval \<times> string"
  and array_items :: "nat \<Rightarrow> pyval list \<Rightarrow> string \<Rightarrow> fail + pyval \<times> string"
  and object_items :: "nat \<Rightarrow> (string \<times> pyval) list \<Rightarrow> string \<Rightarrow> fail + pyval \<times> string"
where
  "scan_once 0 s = Inl No_fuel"
| "scan_once (Suc n) s =
     (case s of
        [] \<Rightarrow> Inl Decode_error
      | c # cs \<Rightarrow>
          if c = dq then
            (case scanstring cs of Inl e \<Rightarrow> Inl e | Inr (t, rest) \<Rightarrow> Inr (PStr t, rest))
          else if c = CHR ''{'' then
            (case skip_ws cs of
               [] \<Rightarrow> Inl Decode_error
             | d # ds \<Rightarrow>
                 if d = CHR ''}'' then Inr (PDict [], ds)
                 else if d = dq then object_items n [] ds
                 else Inl Decode_error)
          else if c = CHR ''['' then
            (case skip_ws cs of
               [] \<Rightarrow> Inl Decode_error
             | d # ds \<Rightarrow>
                 if d = CHR '']'' then Inr (PList [], ds)
                 else array_items n [] (d # ds))
          else if starts_with ''null'' s then Inr (PNone, drop 4 s)
          else if starts_with ''true'' s then Inr (PBool True, drop 4 s)
          else if starts_with ''false'' s then Inr (PBool False, drop 5 s)
          else
            (case match_number s of
               Some r \<Rightarrow> r
             | None \<Rightarrow>
                 if starts_with ''NaN'' s \<or> starts_with ''Infinity'' s \<or> starts_with ''-Infinity'' s
                 then Inl Not_modelled
                 else Inl Decode_error))"
| "array_items 0 acc s = Inl No_fuel"
| "array_items (Suc n) acc s =
     (case scan_once n s of
        Inl e \<Rightarrow> Inl e
      | Inr (v, rest) \<Rightarrow>
          (case skip_ws rest of
             [] \<Rightarrow> Inl Decode_error
           | d # ds \<Rightarrow>
               if d = CHR '']'' then Inr (PList (acc @ [v]), ds)
               else if d = CHR '','' then array_items n (acc @ [v]) (skip_ws ds)
               else Inl Decode_error))"
| "object_items 0 acc s = Inl No_fuel"
| "object_items (Suc n) acc s =
     (case scanstring s of
        Inl e \<Rightarrow> Inl e
      | Inr (k, rest) \<Rightarrow>
          (case skip_ws rest of
             [] \<Rightarrow> Inl Decode_error
           | c # cs \<Rightarrow>
               if c \<noteq> CHR '':'' then Inl Decode_error
               else
                 (case scan_once n (skip_ws cs) of
                    Inl e \<Rightarrow> Inl e
                  | Inr (v, rest') \<Rightarrow>
                      (case skip_ws rest' of
                         [] \<Rightarrow> Inl Decode_error
                       | d # ds \<Rightarrow>
                           if d = CHR ''}'' then Inr (PDict (dict_set acc k v), ds)
                           else if d = CHR '','' then
                             (case skip_ws ds of
                                [] \<Rightarrow> Inl Decode_error
                              | q # qs \<Rightarrow>
                                  if q = dq then object_items n (dict_set acc k v) qs
                                  else Inl Decode_error)
                           else Inl Decode_error))))"

text \<open>
  \<open>json.loads(s)\<close>: white space, one value, white space, the end of the text (anything
  else is "Extra data").
\<close>

definition json_loads :: "string \<Rightarrow> exc + pyval" where
  "json_loads s =
     (case scan_once (Suc (length s)) (skip_ws s) of
        Inl Decode_error \<Rightarrow> Inl JSONDecodeError
      | Inl _ \<Rightarrow> Inl Outside_model
      | Inr (v, rest) \<Rightarrow> if skip_ws rest = [] then Inr v else Inl JSONDecodeError)"

subsection \<open>Values that JSON can carry\<close>

text \<open>
  The values of the model that are JSON-compatible Python values: no \<open>bytes\<close> anywhere,
  and every dictionary is a Python \<open>dict\<close>, that is, its keys are distinct.
\<close>

fun json_compatible :: "pyval \<Rightarrow> bool" where
  "json_compatible PNone = True"
| "json_compatible (PBool b) = True"
| "json_compatible (PInt i) = True"
| "json_compatible (PStr s) = True"
| "json_compatible (PBytes s) = False"
| "json_compatible (PList xs) = (\<forall>x \<in> set xs. json_compatible x)"
| "json_compatible (PDict kvs) =
     (distinct (map fst kvs) \<and> (\<forall>kv \<in> set kvs. json_compatible (snd kv)))"

text \<open>
  Two notions for reasoning about serialised text: the characters a serialised value can
  start with, and the texts that can stand behind a value (the end, or a comma or a
  closing bracket).
\<close>

definition value_start :: "char \<Rightarrow> bool" where
  "value_start c = (is_digit c \<or> c \<in> set ''ntf-[{'' \<or> c = dq)"

definition follows_value :: "string \<Rightarrow> bool" where
  "follows_value s =
     (case s of [] \<Rightarrow> True | c # _ \<Rightarrow> c = CHR '','' \<or> c = CHR '']'' \<or> c = CHR ''}'')"

subsection \<open>UTF-8\<close>

text \<open>
  \<open>str.encode()\<close> and \<open>bytes.decode()\<close> for code points below 256: one byte below 128,
  two bytes (lead \<open>0xC2\<close> or \<open>0xC3\<close>) from 128 on. Any other byte sequence is an error
  or a code point beyond 255, which the model leaves as \<open>Outside_model\<close>.
\<close>

fun encode :: "string \<Rightarrow> string" where
  "encode [] = []"
| "encode (c # cs) =
     (if (of_char c :: nat) < 128 then c # encode cs
      else char_of (192 + (of_char c :: nat) div 64) # char_of (128 + (of_char c :: nat) mod 64)
           # encode cs)"

fun decode :: "string \<Rightarrow> exc + string" where
  "decode [] = Inr []"
| "decode (b # bs') =
     (if (of_char b :: nat) < 128 then
        (case decode bs' of Inl e \<Rightarrow> Inl e | Inr t \<Rightarrow> Inr (b # t))
      else if (of_char b :: nat) = 194 \<or> (of_char b :: nat) = 195 then
        (case bs' of
           [] \<Rightarrow> Inl Outside_model
         | t # ts \<Rightarrow>
             if 128 \<le> (of_char t :: nat) \<and> (of_char t :: nat) < 192 then
               (case decode ts of
                  Inl e \<Rightarrow> Inl e
                | Inr r \<Rightarrow> Inr (char_of (((of_char b :: nat) - 192) * 64 + ((of_char t :: nat) - 128)) # r))
             else Inl Outside_model)
      else Inl Outside_model)"

section \<open>The file system (\<open>os\<close>, \<open>open\<close>)\<close>

text \<open>
  A file system maps a path to a file with its content or to a directory. Paths are
  compared as strings: every file has one name (no links, no \<open>..\<close>, no doubled
  separators). The functions that change it return the new file system; a run returns
  the list of the states the file system goes through after the one it started in, in
  order, so that a run cut short at any point leaves one of them behind.
\<close>

datatype node = File string | Dir

type_synonym fs = "string \<Rightarrow> node option"

definition fs_after :: "fs \<Rightarrow> fs list \<Rightarrow> fs" where
  "fs_after fs t = last (fs # t)"

definition sep :: char where
  "sep = CHR ''/''"

definition all_seps :: "string \<Rightarrow> bool" where
  "all_seps s = (\<forall>c \<in> set s. c = sep)"

definition rstrip_seps :: "string \<Rightarrow> string" where
  "rstrip_seps s = rev (dropWhile (\<lambda>c. c = sep) (rev s))"

text \<open>\<open>posixpath.split\<close>, \<open>dirname\<close>, \<open>basename\<close>, \<open>join\<close>, \<open>exists\<close>.\<close>

definition os_path_split :: "string \<Rightarrow> string \<times> string" where
  "os_path_split p =
     (let head = rev (dropWhile (\<lambda>c. c \<noteq> sep) (rev p));
          tail = rev (takeWhile (\<lambda>c. c \<noteq> sep) (rev p))
      in (if head \<noteq> [] \<and> \<not> all_seps head then rstrip_seps head else head, tail))"

definition os_path_dirname :: "string \<Rightarrow> string" where
  "os_path_dirname p = fst (os_path_split p)"

definition os_path_basename :: "string \<Rightarrow> string" where
  "os_path_basename p = snd (os_path_split p)"

definition os_path_join :: "string \<Rightarrow> string \<Rightarrow> string" where
  "os_path_join a b =
     (if b \<noteq> [] \<and> hd b = sep then b
      else if a = [] \<or> last a = sep then a @ b
      else a @ [sep] @ b)"

definition os_path_exists :: "fs \<Rightarrow> string \<Rightarrow> bool" where
  "os_path_exists fs p = (p \<noteq> [] \<and> fs p \<noteq> None)"

text \<open>
  The directory an entry is made in has to be there: the current directory (no
  directory part) and the root always are.
\<close>

definition parent_check :: "fs \<Rightarrow> string \<Rightarrow> exc option" where
  "parent_check fs p =
     (let d = os_path_dirname p in
      if d = [] \<or> all_seps d then None
      else (case fs d of
              None \<Rightarrow> Some FileNotFoundError
            | Some (File _) \<Rightarrow> Some NotADirectoryError
            | Some Dir \<Rightarrow> None))"

definition os_mkdir :: "fs \<Rightarrow> string \<Rightarrow> exc + fs" where
  "os_mkdir fs name =
     (if name = [] then Inl FileNotFoundError
      else if fs name \<noteq> None then Inl FileExistsError
      else (case parent_check fs name of Some e \<Rightarrow> Inl e | None \<Rightarrow> Inr (fs(name \<mapsto> Dir))))"

text \<open>
  \<open>os.makedirs(name)\<close>: the missing directories above \<open>name\<close> first, then \<open>name\<close>. The
  recursion is on the directory part, which is shorter than the path; the first argument
  bounds its depth.
\<close>

fun os_makedirs :: "nat \<Rightarrow> fs \<Rightarrow> string \<Rightarrow> (exc + unit) \<times> fs list" where
  "os_makedirs 0 fs name = (Inl Outside_model, [])"
| "os_makedirs (Suc n) fs name =
     (let (head0, tail0) = os_path_split name;
          (head, tail) = (if tail0 = [] then os_path_split head0 else (head0, tail0))
      in
      if head \<noteq> [] \<and> tail \<noteq> [] \<and> \<not> os_path_exists fs head then
        (case os_makedirs n fs head of
           (Inl e, t) \<Rightarrow>
             if e = FileExistsError then
               (if tail = ''.'' then (Inr (), t)
                else (case os_mkdir (fs_after fs t) name of
                        Inl e' \<Rightarrow> (Inl e', t)
                      | Inr fs' \<Rightarrow> (Inr (), t @ [fs'])))
             else (Inl e, t)
         | (Inr _, t) \<Rightarrow>
             if tail = ''.'' then (Inr (), t)
             else (case os_mkdir (fs_after fs t) name of
                     Inl e' \<Rightarrow> (Inl e', t)
                   | Inr fs' \<Rightarrow> (Inr (), t @ [fs'])))
      else (case os_mkdir fs name of Inl e \<Rightarrow> (Inl e, []) | Inr fs' \<Rightarrow> (Inr (), [fs'])))"

text \<open>\<open>open(p, 'wb')\<close> creates the file or empties it.\<close>

definition open_wb :: "fs \<Rightarrow> string \<Rightarrow> exc + fs" where
  "open_wb fs p =
     (if p = [] then Inl FileNotFoundError
      else if fs p = Some Dir then Inl IsADirectoryError
      else (case parent_check fs p of Some e \<Rightarrow> Inl e | None \<Rightarrow> Inr (fs(p \<mapsto> File []))))"

text \<open>
  \<open>os.rename(src, dst)\<close> of a file: in one step \<open>dst\<close> names the file and \<open>src\<close> is gone.
  A destination that ends in a separator, or in \<open>.\<close> or \<open>..\<close>, names a directory whatever
  the file system holds, and a file is not renamed to it.
\<close>

definition os_rename :: "fs \<Rightarrow> string \<Rightarrow> string \<Rightarrow> exc + fs" where
  "os_rename fs src dst =
     (case fs src of
        None \<Rightarrow> Inl FileNotFoundError
      | Some Dir \<Rightarrow> Inl Outside_model
      | Some (File d) \<Rightarrow>
          if dst = [] then Inl FileNotFoundError
          else if last dst = sep then
            (if all_seps dst then Inl OSError
             else (case parent_check fs (rstrip_seps dst) of
                     Some e \<Rightarrow> Inl e
                   | None \<Rightarrow> Inl NotADirectoryError))
          else if fs dst = Some Dir then Inl IsADirectoryError
          else (case parent_check fs dst of
                  Some e \<Rightarrow> Inl e
                | None \<Rightarrow>
                    if os_path_basename dst = ''.'' \<or> os_path_basename dst = ''..'' then Inl OSError
                    else Inr (fs(src := None, dst \<mapsto> File d))))"

definition read_file :: "fs \<Rightarrow> string \<Rightarrow> exc + string" where
  "read_file fs p =
     (case fs p of
        None \<Rightarrow> Inl FileNotFoundError
      | Some Dir \<Rightarrow> Inl IsADirectoryError
      | Some (File d) \<Rightarrow> Inr d)"

text \<open>
  \<open>write_file\<close> (lines 22-32). While \<open>file.write(data)\<close> and the closing of the file
  run, the temporary file may hold any prefix of \<open>data\<close>: each is a state of the run.
\<close>

definition write_file :: "fs \<Rightarrow> string \<Rightarrow> string \<Rightarrow> (exc + unit) \<times> fs list" where
  "write_file fs path data =
     (let dir = os_path_dirname path;
          temp_path = path @ ''~'';
          (r, t) = (if \<not> os_path_exists fs dir then os_makedirs (Suc (length dir)) fs dir
                    else (Inr (), []))
      in
      case r of
        Inl e \<Rightarrow> (Inl e, t)
      | Inr _ \<Rightarrow>
          (case open_wb (fs_after fs t) temp_path of
             Inl e \<Rightarrow> (Inl e, t)
           | Inr fs1 \<Rightarrow>
               (let written = map (\<lambda>n. fs1(temp_path \<mapsto> File (take n data))) [1..<Suc (length data)];
                    t1 = t @ [fs1] @ written
                in
                case os_rename (fs_after fs t1) temp_path path of
                  Inl e \<Rightarrow> (Inl e, t1)
                | Inr fs2 \<Rightarrow> (Inr (), t1 @ [fs2]))))"

section \<open>\<open>Settings\<close> (lines 40-66)\<close>

text \<open>
  The object's two attributes; \<open>PNone\<close> in \<open>settings_values\<close> is Python's \<open>None\<close>. A method
  returns the object as it leaves it, also when it raises.
\<close>

record settings =
  settings_path :: string
  settings_values :: pyval

definition Settings_init :: "string \<Rightarrow> settings" where
  "Settings_init path = \<lparr>settings_path = path, settings_values = PNone\<rparr>"

definition Settings_load_values :: "settings \<Rightarrow> fs \<Rightarrow> (exc + unit) \<times> settings" where
  "Settings_load_values self fs =
     (if settings_values self = PNone then
        (if os_path_exists fs (settings_path self) then
           (case read_file fs (settings_path self) of
              Inl e \<Rightarrow> (Inl e, self)
            | Inr bytes \<Rightarrow>
                (case decode bytes of
                   Inl e \<Rightarrow> (Inl e, self)
                 | Inr text \<Rightarrow>
                     (case json_loads text of
                        Inl e \<Rightarrow> (Inl e, self)
                      | Inr v \<Rightarrow> (Inr (), self\<lparr>settings_values := v\<rparr>))))
         else (Inr (), self\<lparr>settings_values := PDict []\<rparr>))
      else (Inr (), self))"

definition Settings_save_values :: "settings \<Rightarrow> fs \<Rightarrow> (exc + unit) \<times> fs list" where
  "Settings_save_values self fs =
     (if settings_values self \<noteq> PNone then
        (case json_dumps (settings_values self) of
           Inl e \<Rightarrow> (Inl e, [])
         | Inr text \<Rightarrow> write_file fs (settings_path self) (encode text))
      else (Inr (), []))"

text \<open>
  \<open>self._values.get(key, default)\<close> needs a dictionary: any other value has no \<open>get\<close>
  (\<open>AttributeError\<close>) and no item assignment with a string key (\<open>TypeError\<close>).
\<close>

definition Settings_get :: "settings \<Rightarrow> string \<Rightarrow> pyval \<Rightarrow> fs \<Rightarrow> (exc + pyval) \<times> settings" where
  "Settings_get self key dflt fs =
     (case Settings_load_values self fs of
        (Inl e, self') \<Rightarrow> (Inl e, self')
      | (Inr _, self') \<Rightarrow>
          (case settings_values self' of
             PDict d \<Rightarrow> (Inr (dict_get d key dflt), self')
           | _ \<Rightarrow> (Inl AttributeError, self')))"

definition Settings_set ::
  "settings \<Rightarrow> string \<Rightarrow> pyval \<Rightarrow> fs \<Rightarrow> (exc + unit) \<times> settings \<times> fs list" where
  "Settings_set self key v fs =
     (case Settings_load_values self fs of
        (Inl e, self') \<Rightarrow> (Inl e, self', [])
      | (Inr _, self') \<Rightarrow>
          (case settings_values self' of
             PDict d \<Rightarrow>
               (let self'' = self'\<lparr>settings_values := PDict (dict_set d key v)\<rparr>;
                    (r, t) = Settings_save_values self'' fs
                in (r, self'', t))
           | _ \<Rightarrow> (Inl TypeError, self', [])))"

section \<open>The command line (lines 87-170)\<close>

text \<open>
  What \<open>parser.parse_args()\<close> is given: the positional arguments and the options in the
  order of the command line, each option with its value. \<open>Priority\<close> carries what \<open>int\<close>
  makes of the value (\<open>None\<close> when \<open>int\<close> refuses it).
\<close>

datatype cli_arg =
    Positional string
  | Application string
  | Url string
  | Priority "int option"
  | Api_key string
  | Set_api_key string

record namespace =
  event :: "string option"
  description :: "string option"
  application :: "string option"
  url :: "string option"
  priority :: int
  api_key :: "string option"
  set_api_key :: "string option"

fun positionals :: "cli_arg list \<Rightarrow> string list" where
  "positionals [] = []"
| "positionals (Positional s # xs) = s # positionals xs"
| "positionals (_ # xs) = positionals xs"

text \<open>An option given several times keeps its last value.\<close>

fun last_some :: "('a \<Rightarrow> 'b option) \<Rightarrow> 'a list \<Rightarrow> 'b option" where
  "last_some f [] = None"
| "last_some f (x # xs) = (case last_some f xs of Some v \<Rightarrow> Some v | None \<Rightarrow> f x)"

definition application_arg :: "cli_arg \<Rightarrow> string option" where
  "application_arg x = (case x of Application s \<Rightarrow> Some s | _ \<Rightarrow> None)"

definition url_arg :: "cli_arg \<Rightarrow> string option" where
  "url_arg x = (case x of Url s \<Rightarrow> Some s | _ \<Rightarrow> None)"

definition priority_arg :: "cli_arg \<Rightarrow> int option" where
  "priority_arg x = (case x of Priority i \<Rightarrow> i | _ \<Rightarrow> None)"

definition api_key_arg :: "cli_arg \<Rightarrow> string option" where
  "api_key_arg x = (case x of Api_key s \<Rightarrow> Some s | _ \<Rightarrow> None)"

definition set_api_key_arg :: "cli_arg \<Rightarrow> string option" where
  "set_api_key_arg x = (case x of Set_api_key s \<Rightarrow> Some s | _ \<Rightarrow> None)"

text \<open>
  The conversion of one argument by its \<open>type\<close>: \<open>argparse\<close> turns a refusal by \<open>int\<close> into
  a usage error and leaves with status 2; a \<open>UserError\<close> from \<open>api_key_type\<close> is none of
  the exceptions \<open>argparse\<close> catches and goes through. \<open>api_argument_type\<close> never raises.
\<close>

definition conversion_error :: "cli_arg \<Rightarrow> exc option" where
  "conversion_error x =
     (case x of
        Priority None \<Rightarrow> Some (SystemExit 2)
      | Api_key k \<Rightarrow> (case api_key_type k of Inl e \<Rightarrow> Some e | Inr _ \<Rightarrow> None)
      | Set_api_key k \<Rightarrow> (case api_key_type k of Inl e \<Rightarrow> Some e | Inr _ \<Rightarrow> None)
      | _ \<Rightarrow> None)"

fun first_error :: "cli_arg list \<Rightarrow> exc option" where
  "first_error [] = None"
| "first_error (x # xs) = (case conversion_error x of Some e \<Rightarrow> Some e | None \<Rightarrow> first_error xs)"

definition converted_key :: "string option \<Rightarrow> string option" where
  "converted_key k =
     (case k of
        None \<Rightarrow> None
      | Some s \<Rightarrow> (case api_key_type s of Inl _ \<Rightarrow> None | Inr v \<Rightarrow> Some v))"

text \<open>
  How \<open>argparse\<close> places the positionals. \<open>event\<close> and \<open>description\<close> are both
  \<open>nargs='?'\<close>, and the parser matches the two of them together against the first run of
  positional arguments it meets, the ones that stand before the next option: the first
  of the run goes to \<open>event\<close>, the second to \<open>description\<close>, and one that finds nothing in
  the run keeps its default \<open>None\<close>. Nothing is left to take what the run holds beyond
  two, nor a positional that stands after a later option: these are the unrecognized
  arguments.
\<close>

definition is_positional :: "cli_arg \<Rightarrow> bool" where
  "is_positional x = (case x of Positional _ \<Rightarrow> True | _ \<Rightarrow> False)"

definition first_run :: "cli_arg list \<Rightarrow> string list" where
  "first_run argv =
     positionals (takeWhile is_positional (dropWhile (\<lambda>x. \<not> is_positional x) argv))"

definition unrecognized :: "cli_arg list \<Rightarrow> string list" where
  "unrecognized argv =
     drop 2 (first_run argv)
     @ positionals (dropWhile is_positional (dropWhile (\<lambda>x. \<not> is_positional x) argv))"

text \<open>
  The parser built in lines 93-142, run on the arguments. The arguments are converted
  from left to right and the first conversion that raises ends the parse. Unrecognized
  arguments are a usage error (status 2), reported once all arguments are read.
\<close>

definition argparse :: "cli_arg list \<Rightarrow> exc + namespace" where
  "argparse argv =
     (case first_error argv of
        Some e \<Rightarrow> Inl e
      | None \<Rightarrow>
          if unrecognized argv \<noteq> [] then Inl (SystemExit 2)
          else Inr \<lparr>
            event = (case first_run argv of [] \<Rightarrow> None | p # _ \<Rightarrow> Some (api_argument_type p)),
            description =
              (case first_run argv of _ # q # _ \<Rightarrow> Some (api_argument_type q) | _ \<Rightarrow> None),
            application = map_option api_argument_type (last_some application_arg argv),
            url = last_some url_arg argv,
            priority = (case last_some priority_arg argv of None \<Rightarrow> 0 | Some i \<Rightarrow> i),
            api_key = converted_key (last_some api_key_arg argv),
            set_api_key = converted_key (last_some set_api_key_arg argv)\<rparr>)"

definition msg_description_missing :: string where
  "msg_description_missing = ''Required argument `description'' @ [CHR 0x27] @ '' missing.''"

definition msg_priority :: string where
  "msg_priority = ''Invalid value for --priority: {}''"

definition msg_exclusive :: string where
  "msg_exclusive = ''Cannot use --set-api-key with any other arguments or options.''"

definition parse_args :: "cli_arg list \<Rightarrow> exc + namespace" where
  "parse_args argv =
     (case argparse argv of
        Inl e \<Rightarrow> Inl e
      | Inr args \<Rightarrow>
          if set_api_key args = None then
            (if event args = None \<and> url args = None then
               Inl (new_UserError msg_description_missing [])
             else
               (let args1 = (if event args = None then args\<lparr>event := url args\<rparr> else args);
                    args2 = (if description args1 = None
                             then args1\<lparr>description := event args1, event := None\<rparr>
                             else args1)
                in
                if \<not> (- 2 \<le> priority args2 \<and> priority args2 \<le> 2) then
                  Inl (new_UserError msg_priority [PInt (priority args2)])
                else Inr args2))
          else if event args \<noteq> None \<or> description args \<noteq> None \<or> application args \<noteq> None
                  \<or> url args \<noteq> None \<or> priority args \<noteq> 0 \<or> api_key args \<noteq> None then
            Inl (new_UserError msg_exclusive [])
          else Inr args)"

section \<open>\<open>main\<close> (lines 173-214)\<close>

text \<open>
  What the program takes from its surroundings: the home directory
  (\<open>os.path.expanduser('~')\<close>), the user and host names, the program's name
  (\<open>sys.argv[0]\<close>) and the remote end of \<open>requests.post\<close>, which answers with a status
  (\<open>response.ok\<close>) and a body, or raises (a connection error, an interrupt).
\<close>

datatype http_result = Response bool string | Raises exc

record env =
  home :: string
  user :: string
  hostname :: string
  argv0 :: string
  http_post :: "string \<Rightarrow> (string \<times> pyval) list \<Rightarrow> http_result"

text \<open>
  What a run does: how it ends, the states the file system goes through and the requests
  it posts (the address and the form fields).
\<close>

record run =
  result :: "exc + unit"
  fs_states :: "fs list"
  requests :: "(string \<times> (string \<times> pyval) list) list"

definition endpoint :: string where
  "endpoint = ''https://api.prowlapp.com/publicapi/add''"

definition msg_api_key_missing :: string where
  "msg_api_key_missing = ''--api-key is mandatory if because default API key has been set.''"

text \<open>The template of line 189: two fields with an at sign between them.\<close>

definition user_at_host :: string where
  "user_at_host = ''{}'' @ [CHR 0x40] @ ''{}''"

definition msg_server :: string where
  "msg_server = ''Error received from server: {}''"

text \<open>
  The generator of lines 191-205, as the list of the pairs it yields. \<open>if description\<close>
  and \<open>if priority\<close> test truth: \<open>None\<close>, the empty string and \<open>0\<close> are false.
\<close>

definition iter_arguments ::
  "pyval \<Rightarrow> string \<Rightarrow> string option \<Rightarrow> string option \<Rightarrow> string option \<Rightarrow> int
     \<Rightarrow> (string \<times> pyval) list" where
  "iter_arguments key app u ev desc prio =
     [(''apikey'', key), (''application'', PStr app)]
     @ (case u of None \<Rightarrow> [] | Some x \<Rightarrow> [(''url'', PStr x)])
     @ (case ev of None \<Rightarrow> [] | Some x \<Rightarrow> [(''event'', PStr x)])
     @ (case desc of None \<Rightarrow> [] | Some x \<Rightarrow> if x \<noteq> [] then [(''description'', PStr x)] else [])
     @ (if prio \<noteq> 0 then [(''priority'', PInt prio)] else [])"

definition settings_file :: "env \<Rightarrow> string" where
  "settings_file env = os_path_join (home env) ''opt/etc/prowl.json''"

definition main :: "env \<Rightarrow> namespace \<Rightarrow> fs \<Rightarrow> run" where
  "main env args fs =
     (let settings = Settings_init (settings_file env) in
      case set_api_key args of
        None \<Rightarrow>
          (case (case api_key args of
                   Some k \<Rightarrow> Inr (PStr k)
                 | None \<Rightarrow>
                     (case Settings_get settings ''default-api-key'' PNone fs of
                        (Inl e, _) \<Rightarrow> Inl e
                      | (Inr v, _) \<Rightarrow>
                          if v = PNone then Inl (new_UserError msg_api_key_missing [])
                          else Inr v)) of
             Inl e \<Rightarrow> \<lparr>result = Inl e, fs_states = [], requests = []\<rparr>
           | Inr key \<Rightarrow>
               (case (case application args of
                        Some a \<Rightarrow> Inr a
                      | None \<Rightarrow> format user_at_host [user env, hostname env]) of
                  Inl e \<Rightarrow> \<lparr>result = Inl e, fs_states = [], requests = []\<rparr>
                | Inr app \<Rightarrow>
                    (let data = dict_of_pairs
                           (iter_arguments key app (url args) (event args) (description args)
                              (priority args))
                     in
                     case http_post env endpoint data of
                       Raises e \<Rightarrow>
                         \<lparr>result = Inl e, fs_states = [], requests = [(endpoint, data)]\<rparr>
                     | Response ok content \<Rightarrow>
                         if \<not> ok then
                           \<lparr>result = Inl (new_UserError msg_server [PBytes content]),
                            fs_states = [], requests = [(endpoint, data)]\<rparr>
                         else \<lparr>result = Inr (), fs_states = [], requests = [(endpoint, data)]\<rparr>)))
      | Some k \<Rightarrow>
          (case Settings_set settings ''default-api-key'' (PStr k) fs of
             (r, _, t) \<Rightarrow> \<lparr>result = r, fs_states = t, requests = []\<rparr>))"

section \<open>\<open>script_main\<close> (lines 217-225) and \<open>log\<close> (lines 11-14)\<close>

definition log :: "string \<Rightarrow> string \<Rightarrow> string list \<Rightarrow> exc + string" where
  "log prog message args =
     (case format message args of
        Inl e \<Rightarrow> Inl e
      | Inr m \<Rightarrow> format ''{}: {}'' [os_path_basename prog, m])"

text \<open>
  What reaches the error stream: a line printed by \<open>log\<close>, the usage text of \<open>argparse\<close>,
  or the traceback of an exception nothing catches. The process ends with an exit
  status: 0 when \<open>script_main\<close> returns, the argument of \<open>sys.exit\<close>, 1 after a traceback.
  A run that leaves the model has no status.
\<close>

datatype err_output = Logged string | Argparse_usage | Traceback exc

record process =
  exit_status :: "int option"
  stderr :: "err_output list"
  run_of :: run

definition script_main :: "env \<Rightarrow> cli_arg list \<Rightarrow> fs \<Rightarrow> process" where
  "script_main env argv fs =
     (let r = (case parse_args argv of
                 Inl e \<Rightarrow> \<lparr>result = Inl e, fs_states = [], requests = []\<rparr>
               | Inr args \<Rightarrow> main env args fs)
      in
      case result r of
        Inr _ \<Rightarrow> \<lparr>exit_status = Some 0, stderr = [], run_of = r\<rparr>
      | Inl (UserError a m) \<Rightarrow>
          (case log (argv0 env) ''Error: {}'' [str_args a] of
             Inl e \<Rightarrow> \<lparr>exit_status = Some 1, stderr = [Traceback e], run_of = r\<rparr>
           | Inr line \<Rightarrow> \<lparr>exit_status = Some 1, stderr = [Logged line], run_of = r\<rparr>)
      | Inl KeyboardInterrupt \<Rightarrow>
          (case log (argv0 env) ''Operation interrupted.'' [] of
             Inl e \<Rightarrow> \<lparr>exit_status = Some 1, stderr = [Traceback e], run_of = r\<rparr>
           | Inr line \<Rightarrow> \<lparr>exit_status = Some 2, stderr = [Logged line], run_of = r\<rparr>)
      | Inl (SystemExit n) \<Rightarrow> \<lparr>exit_status = Some n, stderr = [Argparse_usage], run_of = r\<rparr>
      | Inl Outside_model \<Rightarrow> \<lparr>exit_status = None, stderr = [], run_of = r\<rparr>
      | Inl e \<Rightarrow> \<lparr>exit_status = Some 1, stderr = [Traceback e], run_of = r\<rparr>)"

section \<open>Example surroundings\<close>

text \<open>
  A user \<open>u\<close> on host \<open>h\<close> with a server that accepts every request, a well-formed key,
  a file system with the home directory only, and one in which the settings file holds
  a default key that is no well-formed key.
\<close>

definition demo_env :: env where
  "demo_env = \<lparr>home = ''/home/u'', user = ''u'', hostname = ''h'', argv0 = ''/usr/bin/prowl'',
     http_post = (\<lambda>_ _. Response True ''ok'')\<rparr>"

definition demo_key :: string where
  "demo_key = ''0123456789abcdef0123456789abcdef01234567''"

definition demo_home :: fs where
  "demo_home = [''/home'' \<mapsto> Dir, ''/home/u'' \<mapsto> Dir]"

definition demo_stored :: fs where
  "demo_stored = [''/home'' \<mapsto> Dir, ''/home/u'' \<mapsto> Dir, ''/home/u/opt'' \<mapsto> Dir,
     ''/home/u/opt/etc'' \<mapsto> Dir,
     ''/home/u/opt/etc/prowl.json'' \<mapsto> File ''{\"default-api-key\": \"xyz\"}'']"

section \<open>The API key validator\<close>

lemma in_ranges_hex:
  "in_ranges [(CHR ''0'', CHR ''9''), (CHR ''a'', CHR ''f'')] c = lower_hex c"
  by (cases c) (simp add: lower_hex_def)

lemma match_set_iff:
  "match_set rs n s = Some r \<longleftrightarrow>
     n \<le> length s \<and> (\<forall>c \<in> set (take n s). in_ranges rs c) \<and> r = drop n s"
  by (induction rs n s rule: match_set.induct) auto

lemma re_match_api_key_pattern:
  "re_match api_key_pattern v \<longleftrightarrow>
     40 \<le> length v \<and> (\<forall>c \<in> set (take 40 v). lower_hex c) \<and>
     (drop 40 v = [] \<or> drop 40 v = [newline])"
proof (cases "match_set [(CHR ''0'', CHR ''9''), (CHR ''a'', CHR ''f'')] 40 v")
  case None
  then have "\<not> (40 \<le> length v \<and> (\<forall>c \<in> set (take 40 v). lower_hex c))"
    using match_set_iff [of "[(CHR ''0'', CHR ''9''), (CHR ''a'', CHR ''f'')]" 40 v "drop 40 v"]
    by (simp add: in_ranges_hex del: in_ranges.simps)
  with None show ?thesis by (auto simp: api_key_pattern_def)
next
  case (Some r)
  then have "40 \<le> length v \<and> (\<forall>c \<in> set (take 40 v). lower_hex c) \<and> r = drop 40 v"
    by (simp add: match_set_iff in_ranges_hex del: in_ranges.simps)
  with Some show ?thesis by (auto simp: api_key_pattern_def)
qed

text \<open>
  The strings the validator lets through are the 40-digit lowercase hexadecimal strings
  and, because of \<open>$\<close>, the same strings followed by one newline.
\<close>

lemma api_key_type_accepts_iff:
  "(\<exists>w. api_key_type v = Inr w) \<longleftrightarrow>
     (length v = 40 \<and> (\<forall>c \<in> set v. lower_hex c)) \<or>
     (\<exists>k. v = k @ [newline] \<and> length k = 40 \<and> (\<forall>c \<in> set k. lower_hex c))"
proof -
  have "(40 \<le> length v \<and> (\<forall>c \<in> set (take 40 v). lower_hex c) \<and>
         (drop 40 v = [] \<or> drop 40 v = [newline])) \<longleftrightarrow>
        (length v = 40 \<and> (\<forall>c \<in> set v. lower_hex c)) \<or>
        (\<exists>k. v = k @ [newline] \<and> length k = 40 \<and> (\<forall>c \<in> set k. lower_hex c))"
    (is "?L \<longleftrightarrow> ?A \<or> ?B")
  proof
    assume L: ?L
    then consider "drop 40 v = []" | "drop 40 v = [newline]" by blast
    then show "?A \<or> ?B"
    proof cases
      case 1
      with L have "length v = 40" "take 40 v = v" by auto
      with L show ?thesis by simp
    next
      case 2
      then have "v = take 40 v @ [newline]" by (metis append_take_drop_id)
      moreover from L have "length (take 40 v) = 40" by simp
      ultimately show ?thesis using L by blast
    qed
  next
    assume "?A \<or> ?B"
    then show ?L by auto
  qed
  then have "re_match api_key_pattern v \<longleftrightarrow> ?A \<or> ?B"
    by (simp only: re_match_api_key_pattern)
  moreover have "(\<exists>w. api_key_type v = Inr w) \<longleftrightarrow> re_match api_key_pattern v"
    by (simp add: api_key_type_def)
  ultimately show ?thesis by blast
qed

lemma api_key_type_returns_argument: "api_key_type v = Inr w \<Longrightarrow> w = v"
  by (simp add: api_key_type_def split: if_splits)

lemma api_key_type_rejects:
  "(\<exists>w. api_key_type v = Inr w) \<or>
   api_key_type v = Inl (UserError [PStr ''Invalid API key specified.''] ''Invalid API key specified.'')"
  by (simp add: api_key_type_def new_UserError_def)

text \<open>
  Claim C3. The validator is meant to accept exactly the strings of 40 lowercase
  hexadecimal digits. It does accept every such string, and it rejects every other string
  but one kind: a valid key followed by a single newline has 41 characters, the last of
  them no hexadecimal digit, and is accepted and returned as it is.
\<close>

theorem api_key_type_accepts_trailing_newline:
  "api_key_type (''0123456789abcdef0123456789abcdef01234567'' @ [newline]) =
     Inr (''0123456789abcdef0123456789abcdef01234567'' @ [newline]) \<and>
   length (''0123456789abcdef0123456789abcdef01234567'' @ [newline]) = 41 \<and>
   \<not> lower_hex newline"
  by code_simp

section \<open>The composed request\<close>

lemma foldl_dict_set_distinct:
  "distinct (map fst (d @ ps)) \<Longrightarrow> foldl (\<lambda>d (k, v). dict_set d k v) d ps = d @ ps"
proof (induction ps arbitrary: d)
  case Nil
  then show ?case by simp
next
  case (Cons p ps)
  obtain k v where p: "p = (k, v)" by (cases p)
  from Cons.prems p have "k \<notin> fst ` set d" by auto
  then have "dict_set d k v = d @ [(k, v)]"
    by (induction d) (auto simp: dict_set_def)
  moreover from Cons.prems p have "distinct (map fst ((d @ [(k, v)]) @ ps))" by simp
  ultimately show ?case using Cons.IH [of "d @ [(k, v)]"] p by simp
qed

lemma dict_of_pairs_distinct: "distinct (map fst ps) \<Longrightarrow> dict_of_pairs ps = ps"
  using foldl_dict_set_distinct [of "[]" ps] by (simp add: dict_of_pairs_def)

lemma iter_arguments_distinct: "distinct (map fst (iter_arguments key app u ev desc prio))"
  by (simp add: iter_arguments_def split: option.splits)

lemma dict_of_iter_arguments:
  "dict_of_pairs (iter_arguments key app u ev desc prio) = iter_arguments key app u ev desc prio"
  by (rule dict_of_pairs_distinct) (rule iter_arguments_distinct)

lemma main_posted:
  assumes "req \<in> set (requests (main env args fs))"
  shows "set_api_key args = None \<and>
    (\<exists>key app.
       req = (endpoint, iter_arguments key app (url args) (event args) (description args) (priority args))
       \<and> (case api_key args of
            Some k \<Rightarrow> key = PStr k
          | None \<Rightarrow> key \<noteq> PNone \<and>
              fst (Settings_get (Settings_init (settings_file env)) ''default-api-key'' PNone fs) = Inr key)
       \<and> (case application args of
            Some a \<Rightarrow> app = a
          | None \<Rightarrow> format user_at_host [user env, hostname env] = Inr app))"
  using assms
  by (auto simp: main_def Let_def dict_of_iter_arguments
      split: option.splits sum.splits prod.splits http_result.splits if_splits)

lemma keys_iter_arguments:
  "k \<in> fst ` set (iter_arguments key app u ev desc prio) \<longleftrightarrow>
     k = ''apikey'' \<or> k = ''application'' \<or> (k = ''url'' \<and> u \<noteq> None)
     \<or> (k = ''event'' \<and> ev \<noteq> None)
     \<or> (k = ''description'' \<and> desc \<noteq> None \<and> desc \<noteq> Some [])
     \<or> (k = ''priority'' \<and> prio \<noteq> 0)"
  unfolding iter_arguments_def
  by (cases u; cases ev; cases desc; cases "prio = 0"; cases "desc = Some []"; simp; blast)


text \<open>
  Claim C8. Every request \<open>main\<close> posts carries \<open>apikey\<close> and \<open>application\<close>; it carries
  \<open>url\<close> and \<open>event\<close> exactly when the argument is not \<open>None\<close>, and \<open>priority\<close> exactly when
  the priority is not 0.
\<close>

theorem request_field_set:
  assumes "(u, flds) \<in> set (requests (main env args fs))"
  shows "''apikey'' \<in> fst ` set flds \<and> ''application'' \<in> fst ` set flds
    \<and> (''url'' \<in> fst ` set flds \<longleftrightarrow> url args \<noteq> None)
    \<and> (''event'' \<in> fst ` set flds \<longleftrightarrow> event args \<noteq> None)
    \<and> (''priority'' \<in> fst ` set flds \<longleftrightarrow> priority args \<noteq> 0)"
proof -
  from main_posted [OF assms] obtain key app where
    "flds = iter_arguments key app (url args) (event args) (description args) (priority args)"
    by auto
  then show ?thesis by (simp add: keys_iter_arguments)
qed

lemma format_user_host: "format user_at_host [a, b] = Inr (a @ [CHR 0x40] @ b)"
  by (simp add: user_at_host_def)

lemma format_error_line: "format ''Error: {}'' [x] = Inr (''Error: '' @ x)"
  by simp

lemma format_log_line: "format ''{}: {}'' [p, m] = Inr (p @ '': '' @ m)"
  by simp

lemma demo_main:
  "requests (main demo_env
      \<lparr>event = Some ''build'', description = Some ''done'', application = None, url = None,
       priority = 0, api_key = Some demo_key, set_api_key = None\<rparr> demo_home) =
    [(endpoint, [(''apikey'', PStr demo_key), (''application'', PStr ''u@h''),
       (''event'', PStr ''build''), (''description'', PStr ''done'')])]"
  by (simp add: main_def demo_env_def dict_of_pairs_distinct iter_arguments_def format_user_host)


theorem request_field_set_witness:
  "(endpoint, [(''apikey'', PStr demo_key), (''application'', PStr ''u@h''),
       (''event'', PStr ''build''), (''description'', PStr ''done'')])
     \<in> set (requests (main demo_env
      \<lparr>event = Some ''build'', description = Some ''done'', application = None, url = None,
       priority = 0, api_key = Some demo_key, set_api_key = None\<rparr> demo_home))
   \<and> ''apikey'' \<in> fst ` set [(''apikey'', PStr demo_key), (''application'', PStr ''u@h''),
       (''event'', PStr ''build''), (''description'', PStr ''done'')]
   \<and> ''event'' \<in> fst ` set [(''apikey'', PStr demo_key), (''application'', PStr ''u@h''),
       (''event'', PStr ''build''), (''description'', PStr ''done'')]
   \<and> ''priority'' \<notin> fst ` set [(''apikey'', PStr demo_key), (''application'', PStr ''u@h''),
       (''event'', PStr ''build''), (''description'', PStr ''done'')]"
proof -
  have m: "(endpoint, [(''apikey'', PStr demo_key), (''application'', PStr ''u@h''),
       (''event'', PStr ''build''), (''description'', PStr ''done'')])
     \<in> set (requests (main demo_env
      \<lparr>event = Some ''build'', description = Some ''done'', application = None, url = None,
       priority = 0, api_key = Some demo_key, set_api_key = None\<rparr> demo_home))"
    by (simp add: demo_main)
  from request_field_set [OF m] m show ?thesis by simp
qed

section \<open>Normalising the arguments\<close>

lemma positionals_Nil_iff: "positionals xs = [] \<longleftrightarrow> (\<forall>s. Positional s \<notin> set xs)"
  by (induction xs rule: positionals.induct) auto

lemma positionals_append: "positionals (xs @ ys) = positionals xs @ positionals ys"
  by (induction xs rule: positionals.induct) simp_all

lemma positionals_no_positional: "\<forall>x \<in> set xs. \<not> is_positional x \<Longrightarrow> positionals xs = []"
  by (induction xs rule: positionals.induct) (simp_all add: is_positional_def)

lemma positionals_map_Positional: "positionals (map Positional ps) = ps"
  by (induction ps) simp_all

lemma run_of_positionals:
  "\<forall>x \<in> set xs. is_positional x \<Longrightarrow> xs = map Positional (positionals xs)"
  by (induction xs rule: positionals.induct) (simp_all add: is_positional_def)

text \<open>The positionals of a command line: those of the first run, then the unrecognized.\<close>

lemma positionals_split:
  "positionals argv =
     first_run argv
     @ positionals (dropWhile is_positional (dropWhile (\<lambda>x. \<not> is_positional x) argv))"
proof -
  let ?pre = "takeWhile (\<lambda>x. \<not> is_positional x) argv"
  let ?rest = "dropWhile (\<lambda>x. \<not> is_positional x) argv"
  have "\<forall>x \<in> set ?pre. \<not> is_positional x"
    by (auto dest: set_takeWhileD)
  then have "positionals ?pre = []"
    by (rule positionals_no_positional)
  moreover have "argv = ?pre @ takeWhile is_positional ?rest @ dropWhile is_positional ?rest"
    by simp
  then have "positionals argv =
      positionals ?pre @ positionals (takeWhile is_positional ?rest)
      @ positionals (dropWhile is_positional ?rest)"
    by (metis positionals_append)
  ultimately show ?thesis by (simp add: first_run_def)
qed

lemma unrecognized_Nil_iff:
  "unrecognized argv = [] \<longleftrightarrow>
     length (first_run argv) \<le> 2 \<and> positionals argv = first_run argv"
  using positionals_split [of argv] by (auto simp: unrecognized_def)

text \<open>
  The command lines without unrecognized arguments: options, then at most two
  positionals side by side, then options.
\<close>

lemma unrecognized_Nil_shape:
  "unrecognized argv = [] \<longleftrightarrow>
     (\<exists>pre ps post. argv = pre @ map Positional ps @ post \<and> length ps \<le> 2
        \<and> (\<forall>x \<in> set pre. \<not> is_positional x) \<and> (\<forall>x \<in> set post. \<not> is_positional x))"
proof
  assume u: "unrecognized argv = []"
  let ?pre = "takeWhile (\<lambda>x. \<not> is_positional x) argv"
  let ?rest = "dropWhile (\<lambda>x. \<not> is_positional x) argv"
  let ?run = "takeWhile is_positional ?rest"
  let ?post = "dropWhile is_positional ?rest"
  have pre: "\<forall>x \<in> set ?pre. \<not> is_positional x"
    by (auto dest: set_takeWhileD)
  have "\<forall>x \<in> set ?run. is_positional x"
    by (auto dest: set_takeWhileD)
  then have run: "?run = map Positional (first_run argv)"
    unfolding first_run_def by (rule run_of_positionals)
  from u have "positionals ?post = []" and len: "length (first_run argv) \<le> 2"
    by (simp_all add: unrecognized_def)
  then have post: "\<forall>x \<in> set ?post. \<not> is_positional x"
    by (auto simp: positionals_Nil_iff is_positional_def split: cli_arg.splits)
  have "argv = ?pre @ ?run @ ?post" by simp
  then have "argv = ?pre @ map Positional (first_run argv) @ ?post"
    using run by simp
  with len pre post show "\<exists>pre ps post. argv = pre @ map Positional ps @ post \<and> length ps \<le> 2
        \<and> (\<forall>x \<in> set pre. \<not> is_positional x) \<and> (\<forall>x \<in> set post. \<not> is_positional x)"
    by blast
next
  assume "\<exists>pre ps post. argv = pre @ map Positional ps @ post \<and> length ps \<le> 2
        \<and> (\<forall>x \<in> set pre. \<not> is_positional x) \<and> (\<forall>x \<in> set post. \<not> is_positional x)"
  then obtain pre ps post where argv: "argv = pre @ map Positional ps @ post"
    and len: "length ps \<le> 2" and pre: "\<forall>x \<in> set pre. \<not> is_positional x"
    and post: "\<forall>x \<in> set post. \<not> is_positional x"
    by blast
  show "unrecognized argv = []"
  proof (cases ps)
    case Nil
    with pre post have "\<forall>x \<in> set argv. \<not> is_positional x"
      by (auto simp: argv)
    then have e: "dropWhile (\<lambda>x. \<not> is_positional x) argv = []"
      by simp
    show ?thesis unfolding unrecognized_def first_run_def e by simp
  next
    case (Cons p ps')
    with pre have d: "dropWhile (\<lambda>x. \<not> is_positional x) argv = map Positional ps @ post"
      by (simp add: argv dropWhile_append3 is_positional_def)
    have all: "\<forall>x \<in> set (map Positional ps). is_positional x"
      by (simp add: is_positional_def)
    have "takeWhile is_positional (map Positional ps @ post) = map Positional ps
        \<and> dropWhile is_positional (map Positional ps @ post) = post"
    proof (cases post)
      case Nil
      with all show ?thesis by simp
    next
      case (Cons x post')
      with post have "\<not> is_positional x" by simp
      with all Cons show ?thesis by (simp add: takeWhile_tail dropWhile_append3)
    qed
    moreover from post have "positionals post = []" by (rule positionals_no_positional)
    ultimately show ?thesis
      using len by (simp add: unrecognized_def first_run_def d positionals_map_Positional)
  qed
qed

lemma argparse_Inr:
  assumes "argparse argv = Inr a"
  shows "first_error argv = None" "length (positionals argv) \<le> 2"
    "event a = (case positionals argv of [] \<Rightarrow> None | p # _ \<Rightarrow> Some (api_argument_type p))"
    "description a = (case positionals argv of _ # q # _ \<Rightarrow> Some (api_argument_type q) | _ \<Rightarrow> None)"
    "application a = map_option api_argument_type (last_some application_arg argv)"
    "url a = last_some url_arg argv"
    "priority a = (case last_some priority_arg argv of None \<Rightarrow> 0 | Some i \<Rightarrow> i)"
    "api_key a = converted_key (last_some api_key_arg argv)"
    "set_api_key a = converted_key (last_some set_api_key_arg argv)"
    "unrecognized argv = []"
proof -
  from assms have fe: "first_error argv = None" and u: "unrecognized argv = []"
    by (auto simp: argparse_def split: option.splits if_splits)
  from u have p: "positionals argv = first_run argv" and l: "length (first_run argv) \<le> 2"
    by (simp_all add: unrecognized_Nil_iff)
  from fe show "first_error argv = None" .
  from u show "unrecognized argv = []" .
  from p l show "length (positionals argv) \<le> 2" by simp
  from assms fe u show
    "event a = (case positionals argv of [] \<Rightarrow> None | p # _ \<Rightarrow> Some (api_argument_type p))"
    "description a = (case positionals argv of _ # q # _ \<Rightarrow> Some (api_argument_type q) | _ \<Rightarrow> None)"
    "application a = map_option api_argument_type (last_some application_arg argv)"
    "url a = last_some url_arg argv"
    "priority a = (case last_some priority_arg argv of None \<Rightarrow> 0 | Some i \<Rightarrow> i)"
    "api_key a = converted_key (last_some api_key_arg argv)"
    "set_api_key a = converted_key (last_some set_api_key_arg argv)"
    by (auto simp: argparse_def p)
qed

text \<open>Whatever converts and holds no unrecognized argument is accepted.\<close>

lemma argparse_accepts:
  "(\<exists>a. argparse argv = Inr a) \<longleftrightarrow> first_error argv = None \<and> unrecognized argv = []"
  by (auto simp: argparse_def split: option.splits)

lemma last_some_None_iff: "last_some f xs = None \<longleftrightarrow> (\<forall>x \<in> set xs. f x = None)"
  by (induction xs) (auto split: option.splits)

lemma last_some_Some_mem: "last_some f xs = Some v \<Longrightarrow> \<exists>x \<in> set xs. f x = Some v"
  by (induction xs) (auto split: option.splits)

lemma first_error_None_iff: "first_error xs = None \<longleftrightarrow> (\<forall>x \<in> set xs. conversion_error x = None)"
  by (induction xs) (auto split: option.splits)

lemma converted_key_given:
  assumes "first_error argv = None" and "Api_key k \<in> set argv \<or> Set_api_key k \<in> set argv"
  shows "converted_key (Some k) = Some k"
proof -
  from assms have "conversion_error (Api_key k) = None \<or> conversion_error (Set_api_key k) = None"
    by (auto simp: first_error_None_iff)
  then obtain v where "api_key_type k = Inr v"
    by (auto simp: conversion_error_def split: sum.splits)
  then show ?thesis
    using api_key_type_returns_argument [of k v] by (simp add: converted_key_def)
qed

lemma api_key_arg_Some: "api_key_arg x = Some k \<longleftrightarrow> x = Api_key k"
  by (cases x) (simp_all add: api_key_arg_def)

lemma set_api_key_arg_Some: "set_api_key_arg x = Some k \<longleftrightarrow> x = Set_api_key k"
  by (cases x) (simp_all add: set_api_key_arg_def)

lemma application_arg_Some: "application_arg x = Some k \<longleftrightarrow> x = Application k"
  by (cases x) (simp_all add: application_arg_def)

lemma url_arg_Some: "url_arg x = Some k \<longleftrightarrow> x = Url k"
  by (cases x) (simp_all add: url_arg_def)

lemma argparse_api_key:
  assumes "argparse argv = Inr a"
  shows "api_key a = last_some api_key_arg argv" "set_api_key a = last_some set_api_key_arg argv"
proof -
  note fe = argparse_Inr(1) [OF assms]
  show "api_key a = last_some api_key_arg argv"
  proof (cases "last_some api_key_arg argv")
    case None
    then show ?thesis using argparse_Inr(8) [OF assms] by (simp add: converted_key_def)
  next
    case (Some k)
    then have "Api_key k \<in> set argv"
      using last_some_Some_mem [of api_key_arg argv k] by (auto simp: api_key_arg_Some)
    then show ?thesis
      using argparse_Inr(8) [OF assms] Some converted_key_given [OF fe, of k] by simp
  qed
  show "set_api_key a = last_some set_api_key_arg argv"
  proof (cases "last_some set_api_key_arg argv")
    case None
    then show ?thesis using argparse_Inr(9) [OF assms] by (simp add: converted_key_def)
  next
    case (Some k)
    then have "Set_api_key k \<in> set argv"
      using last_some_Some_mem [of set_api_key_arg argv k] by (auto simp: set_api_key_arg_Some)
    then show ?thesis
      using argparse_Inr(9) [OF assms] Some converted_key_given [OF fe, of k] by simp
  qed
qed

lemma parse_args_notification:
  assumes "argparse argv = Inr a" and "set_api_key a = None"
  shows "parse_args argv =
    (if event a = None \<and> url a = None then Inl (new_UserError msg_description_missing [])
     else if \<not> (- 2 \<le> priority a \<and> priority a \<le> 2) then
       Inl (new_UserError msg_priority [PInt (priority a)])
     else Inr (if description a = None
               then a\<lparr>description := (if event a = None then url a else event a), event := None\<rparr>
               else if event a = None then a\<lparr>event := url a\<rparr> else a))"
  using assms by (simp add: parse_args_def Let_def)

lemma parse_args_set_api_key:
  assumes "argparse argv = Inr a" and "set_api_key a \<noteq> None"
  shows "parse_args argv =
    (if event a \<noteq> None \<or> description a \<noteq> None \<or> application a \<noteq> None
        \<or> url a \<noteq> None \<or> priority a \<noteq> 0 \<or> api_key a \<noteq> None
     then Inl (new_UserError msg_exclusive []) else Inr a)"
  using assms by (cases "set_api_key a") (simp_all add: parse_args_def)

lemma parse_args_argparse_error: "argparse argv = Inl e \<Longrightarrow> parse_args argv = Inl e"
  by (simp add: parse_args_def)

text \<open>
  A positional that stands apart from the first one, behind an option, is unrecognized:
  \<open>prowl a --url http://x b\<close> ends with a usage error.
\<close>

lemma dropWhile_suffix: "\<exists>t. dropWhile P (xs @ y # ys) = t @ y # ys" if "\<not> P y"
  using that by (induction xs) auto

lemma dropWhile_suffix2:
  "\<not> P y \<Longrightarrow> \<exists>t. t \<noteq> [] \<and> dropWhile P (xs @ y # ys) = t @ ys"
proof (induction xs)
  case Nil
  then show ?case by (auto intro: exI [of _ "[y]"])
next
  case (Cons a xs)
  then show ?case by (cases "P a") (auto intro: exI [of _ "a # xs @ [y]"])
qed

lemma unrecognized_positionals_apart:
  assumes "\<not> is_positional x"
  shows "unrecognized (pre @ Positional p # x # mid @ Positional q # post) \<noteq> []"
proof -
  let ?ys = "x # mid @ Positional q # post"
  have "\<not> \<not> is_positional (Positional p)"
    by (simp add: is_positional_def)
  then have "\<exists>t. t \<noteq> [] \<and>
      dropWhile (\<lambda>x. \<not> is_positional x) (pre @ Positional p # ?ys) = t @ ?ys"
    by (rule dropWhile_suffix2 [where P = "\<lambda>x. \<not> is_positional x"])
  then obtain s where s: "dropWhile (\<lambda>x. \<not> is_positional x) (pre @ Positional p # ?ys) = s @ ?ys"
    by blast
  from assms have "\<exists>t. dropWhile is_positional (s @ ?ys) = t @ ?ys"
    by (rule dropWhile_suffix)
  then obtain t where t: "dropWhile is_positional (s @ ?ys) = t @ ?ys"
    by blast
  have "positionals ((t @ x # mid) @ Positional q # post) =
      positionals (t @ x # mid) @ q # positionals post"
    by (simp only: positionals_append positionals.simps)
  then have "positionals (t @ ?ys) \<noteq> []"
    by simp
  then show ?thesis
    unfolding unrecognized_def s t by simp
qed

lemma argparse_positionals_apart:
  assumes "\<not> is_positional x"
  shows "argparse (pre @ Positional p # x # mid @ Positional q # post) \<noteq> Inr a"
  using unrecognized_positionals_apart [OF assms, of pre p mid q post] argparse_Inr(10)
  by blast

lemma demo_argparse_apart:
  "argparse [Positional ''a'', Url ''http://x'', Positional ''b''] = Inl (SystemExit 2)"
  by code_simp

text \<open>
  Claim C1. In a notification invocation (the parser accepts the arguments and there is
  no \<open>--set-api-key\<close> among them) the positionals are normalised by their number, which is
  at most two. None: without a \<open>--url\<close> on the command line the run ends with the
  missing-description error, with one the value of the (last) \<open>--url\<close> is the description
  and there is no event. One: it is the description and there is no event. Two: the
  first is the event, the second the description. A positional is taken as its argument
  type returns it (\<open>api_argument_type\<close>, applied by the parser before anything else). The
  priority is checked after that, so a result is returned when it lies in \<open>[-2, 2]\<close>.
\<close>

theorem parse_args_positionals:
  assumes "argparse argv = Inr a" and "last_some set_api_key_arg argv = None"
  shows "(positionals argv = [] \<and> last_some url_arg argv = None \<longrightarrow>
            parse_args argv = Inl (new_UserError msg_description_missing []))
    \<and> (\<forall>u. positionals argv = [] \<and> last_some url_arg argv = Some u \<longrightarrow>
            parse_args argv =
              (if - 2 \<le> priority a \<and> priority a \<le> 2
               then Inr (a\<lparr>event := None, description := Some u\<rparr>)
               else Inl (new_UserError msg_priority [PInt (priority a)])))
    \<and> (\<forall>p. positionals argv = [p] \<longrightarrow>
            parse_args argv =
              (if - 2 \<le> priority a \<and> priority a \<le> 2
               then Inr (a\<lparr>event := None, description := Some (api_argument_type p)\<rparr>)
               else Inl (new_UserError msg_priority [PInt (priority a)])))
    \<and> (\<forall>p q. positionals argv = [p, q] \<longrightarrow>
            parse_args argv =
              (if - 2 \<le> priority a \<and> priority a \<le> 2
               then Inr (a\<lparr>event := Some (api_argument_type p),
                          description := Some (api_argument_type q)\<rparr>)
               else Inl (new_UserError msg_priority [PInt (priority a)])))
    \<and> length (positionals argv) \<le> 2
    \<and> url a = last_some url_arg argv"
proof -
  note ev = argparse_Inr(3) [OF assms(1)] and de = argparse_Inr(4) [OF assms(1)]
  note ur = argparse_Inr(6) [OF assms(1)]
  from assms have sa: "set_api_key a = None"
    by (simp add: argparse_api_key(2))
  note pa = parse_args_notification [OF assms(1) sa]
  have none: "event a = None" "description a = None" if "positionals argv = []"
    using that ev de by simp_all
  have one: "event a = Some (api_argument_type p)" "description a = None"
    if "positionals argv = [p]" for p
    using that ev de by simp_all
  have two: "event a = Some (api_argument_type p)" "description a = Some (api_argument_type q)"
    if "positionals argv = [p, q]" for p q
    using that ev de by simp_all
  have 1: "positionals argv = [] \<and> last_some url_arg argv = None \<longrightarrow>
      parse_args argv = Inl (new_UserError msg_description_missing [])"
    by (simp add: pa none ur)
  have 2: "\<forall>u. positionals argv = [] \<and> last_some url_arg argv = Some u \<longrightarrow>
      parse_args argv =
        (if - 2 \<le> priority a \<and> priority a \<le> 2
         then Inr (a\<lparr>event := None, description := Some u\<rparr>)
         else Inl (new_UserError msg_priority [PInt (priority a)]))"
    by (auto simp: pa none ur)
  have 3: "\<forall>p. positionals argv = [p] \<longrightarrow>
      parse_args argv =
        (if - 2 \<le> priority a \<and> priority a \<le> 2
         then Inr (a\<lparr>event := None, description := Some (api_argument_type p)\<rparr>)
         else Inl (new_UserError msg_priority [PInt (priority a)]))"
    by (auto simp: pa one)
  have 4: "\<forall>p q. positionals argv = [p, q] \<longrightarrow>
      parse_args argv =
        (if - 2 \<le> priority a \<and> priority a \<le> 2
         then Inr (a\<lparr>event := Some (api_argument_type p),
                    description := Some (api_argument_type q)\<rparr>)
         else Inl (new_UserError msg_priority [PInt (priority a)]))"
  proof (intro allI impI)
    fix p q assume pq: "positionals argv = [p, q]"
    have "a\<lparr>event := Some (api_argument_type p), description := Some (api_argument_type q)\<rparr> = a"
      using two [OF pq] by simp
    then show "parse_args argv =
        (if - 2 \<le> priority a \<and> priority a \<le> 2
         then Inr (a\<lparr>event := Some (api_argument_type p),
                    description := Some (api_argument_type q)\<rparr>)
         else Inl (new_UserError msg_priority [PInt (priority a)]))"
      using two [OF pq] by (simp add: pa)
  qed
  note 5 = argparse_Inr(2) [OF assms(1)]
  from 1 2 3 4 5 ur show ?thesis by blast
qed

lemma demo_argparse:
  "argparse [Positional ''build'', Positional ''0''] =
     Inr \<lparr>event = Some ''build'', description = Some ''0 '', application = None, url = None,
          priority = 0, api_key = None, set_api_key = None\<rparr>"
  by code_simp

lemma demo_argparse_url:
  "argparse [Url ''http://x''] =
     Inr \<lparr>event = None, description = None, application = None, url = Some ''http://x'',
          priority = 0, api_key = None, set_api_key = None\<rparr>"
  by code_simp

theorem parse_args_positionals_witness:
  "argparse [Url ''http://x''] =
     Inr \<lparr>event = None, description = None, application = None, url = Some ''http://x'',
          priority = 0, api_key = None, set_api_key = None\<rparr>
   \<and> last_some set_api_key_arg [Url ''http://x''] = None
   \<and> positionals [Url ''http://x''] = []
   \<and> last_some url_arg [Url ''http://x''] = Some ''http://x''
   \<and> parse_args [Url ''http://x''] =
     Inr \<lparr>event = None, description = Some ''http://x'', application = None,
          url = Some ''http://x'', priority = 0, api_key = None, set_api_key = None\<rparr>
   \<and> argparse [Positional ''build'', Positional ''0''] =
     Inr \<lparr>event = Some ''build'', description = Some ''0 '', application = None, url = None,
          priority = 0, api_key = None, set_api_key = None\<rparr>
   \<and> last_some set_api_key_arg [Positional ''build'', Positional ''0''] = None
   \<and> positionals [Positional ''build'', Positional ''0''] = [''build'', ''0'']
   \<and> parse_args [Positional ''build'', Positional ''0''] =
     Inr \<lparr>event = Some ''build'', description = Some ''0 '', application = None, url = None,
          priority = 0, api_key = None, set_api_key = None\<rparr>"
proof -
  have s: "last_some set_api_key_arg [Url ''http://x''] = None"
    "last_some set_api_key_arg [Positional ''build'', Positional ''0''] = None"
    "last_some url_arg [Url ''http://x''] = Some ''http://x''"
    by (simp_all add: set_api_key_arg_def url_arg_def)
  from parse_args_positionals [OF demo_argparse_url s(1)]
    parse_args_positionals [OF demo_argparse s(2)] s
  show ?thesis
    by (simp add: demo_argparse demo_argparse_url api_argument_type_def url_arg_def
        set_api_key_arg_def)
qed

section \<open>The description that is empty\<close>

lemma new_UserError_plain:
  "CHR ''{'' \<notin> set msg \<Longrightarrow> CHR ''}'' \<notin> set msg \<Longrightarrow> format msg [] = Inr msg"
  by (induction msg) auto

lemma UserError_description_missing:
  "new_UserError msg_description_missing [] =
     UserError [PStr msg_description_missing] msg_description_missing"
  by (simp add: new_UserError_def new_UserError_plain msg_description_missing_def)

lemma UserError_exclusive:
  "new_UserError msg_exclusive [] = UserError [PStr msg_exclusive] msg_exclusive"
  by (simp add: new_UserError_def new_UserError_plain msg_exclusive_def)

lemma UserError_api_key_missing:
  "new_UserError msg_api_key_missing [] = UserError [PStr msg_api_key_missing] msg_api_key_missing"
  by (simp add: new_UserError_def new_UserError_plain msg_api_key_missing_def)

lemma UserError_invalid_key:
  "new_UserError ''Invalid API key specified.'' [] =
     UserError [PStr ''Invalid API key specified.''] ''Invalid API key specified.''"
  by (simp add: new_UserError_def)

lemma UserError_priority:
  "new_UserError msg_priority [PInt i] =
     UserError [PStr msg_priority, PInt i] (''Invalid value for --priority: '' @ str_int i)"
  by (simp add: new_UserError_def msg_priority_def str_def)

lemma UserError_server:
  "new_UserError msg_server [PBytes b] =
     UserError [PStr msg_server, PBytes b]
       (''Error received from server: '' @ CHR ''b'' # repr_text printable_ascii b)"
  by (simp add: new_UserError_def msg_server_def str_def)

text \<open>
  Claim C10. In a notification invocation the missing-description error is raised exactly
  when there is no positional and no \<open>--url\<close>; a single empty positional passes
  validation with the empty string as description. A request for arguments whose
  description is the empty string has no \<open>description\<close> field, while an event that is
  present is sent as it is, the empty string included.
\<close>

theorem empty_description_omitted:
  assumes "argparse argv = Inr a" and "set_api_key a = None"
  shows "(parse_args argv = Inl (new_UserError msg_description_missing []) \<longleftrightarrow>
            positionals argv = [] \<and> url a = None)
    \<and> (positionals argv = [[]] \<and> - 2 \<le> priority a \<and> priority a \<le> 2 \<longrightarrow>
            parse_args argv = Inr (a\<lparr>event := None, description := Some []\<rparr>))
    \<and> (\<forall>args u flds. parse_args argv = Inr args \<and> description args = Some []
            \<and> (u, flds) \<in> set (requests (main env args fs)) \<longrightarrow>
            ''description'' \<notin> fst ` set flds)
    \<and> (\<forall>args e u flds. parse_args argv = Inr args \<and> event args = Some e
            \<and> (u, flds) \<in> set (requests (main env args fs)) \<longrightarrow>
            (''event'', PStr e) \<in> set flds)"
proof -
  note ev = argparse_Inr(3) [OF assms(1)] and de = argparse_Inr(4) [OF assms(1)]
  note pa = parse_args_notification [OF assms]
  have ev_none: "event a = None \<longleftrightarrow> positionals argv = []"
    using ev by (cases "positionals argv") simp_all
  have 1: "parse_args argv = Inl (new_UserError msg_description_missing []) \<longleftrightarrow>
      positionals argv = [] \<and> url a = None"
    by (simp add: pa ev_none UserError_description_missing UserError_priority)
  have 2: "positionals argv = [[]] \<and> - 2 \<le> priority a \<and> priority a \<le> 2 \<longrightarrow>
      parse_args argv = Inr (a\<lparr>event := None, description := Some []\<rparr>)"
  proof
    assume h: "positionals argv = [[]] \<and> - 2 \<le> priority a \<and> priority a \<le> 2"
    then have "event a = Some []" "description a = None"
      using ev de by (simp_all add: api_argument_type_def)
    with h show "parse_args argv = Inr (a\<lparr>event := None, description := Some []\<rparr>)"
      by (simp add: pa)
  qed
  have 3: "\<forall>args u flds. parse_args argv = Inr args \<and> description args = Some []
      \<and> (u, flds) \<in> set (requests (main env args fs)) \<longrightarrow> ''description'' \<notin> fst ` set flds"
  proof (intro allI impI)
    fix args u flds
    assume h: "parse_args argv = Inr args \<and> description args = Some []
      \<and> (u, flds) \<in> set (requests (main env args fs))"
    then obtain key app where
      "flds = iter_arguments key app (url args) (event args) (description args) (priority args)"
      using main_posted [of "(u, flds)" env args fs] by auto
    with h show "''description'' \<notin> fst ` set flds"
      by (simp add: keys_iter_arguments)
  qed
  have 4: "\<forall>args e u flds. parse_args argv = Inr args \<and> event args = Some e
      \<and> (u, flds) \<in> set (requests (main env args fs)) \<longrightarrow> (''event'', PStr e) \<in> set flds"
  proof (intro allI impI)
    fix args e u flds
    assume h: "parse_args argv = Inr args \<and> event args = Some e
      \<and> (u, flds) \<in> set (requests (main env args fs))"
    then obtain key app where
      "flds = iter_arguments key app (url args) (event args) (description args) (priority args)"
      using main_posted [of "(u, flds)" env args fs] by auto
    with h show "(''event'', PStr e) \<in> set flds"
      by (simp add: iter_arguments_def)
  qed
  from 1 2 3 4 show ?thesis by blast
qed

lemma demo_argparse_empty:
  "argparse [Positional [], Api_key demo_key] =
     Inr \<lparr>event = Some [], description = None, application = None, url = None,
          priority = 0, api_key = Some demo_key, set_api_key = None\<rparr>"
  by code_simp

lemma demo_main_empty:
  "requests (main demo_env
      \<lparr>event = None, description = Some [], application = None, url = None,
       priority = 0, api_key = Some demo_key, set_api_key = None\<rparr> demo_home) =
    [(endpoint, [(''apikey'', PStr demo_key), (''application'', PStr ''u@h'')])]"
  by (simp add: main_def demo_env_def dict_of_pairs_distinct iter_arguments_def format_user_host)

theorem empty_description_omitted_witness:
  "argparse [Positional [], Api_key demo_key] =
     Inr \<lparr>event = Some [], description = None, application = None, url = None,
          priority = 0, api_key = Some demo_key, set_api_key = None\<rparr>
   \<and> parse_args [Positional [], Api_key demo_key] =
     Inr \<lparr>event = None, description = Some [], application = None, url = None,
          priority = 0, api_key = Some demo_key, set_api_key = None\<rparr>
   \<and> requests (main demo_env
      \<lparr>event = None, description = Some [], application = None, url = None,
       priority = 0, api_key = Some demo_key, set_api_key = None\<rparr> demo_home) =
    [(endpoint, [(''apikey'', PStr demo_key), (''application'', PStr ''u@h'')])]
   \<and> ''description'' \<notin> fst ` set [(''apikey'', PStr demo_key), (''application'', PStr ''u@h'')]"
proof -
  have p: "positionals [Positional [], Api_key demo_key] = [[]]" by simp
  from empty_description_omitted [OF demo_argparse_empty, of demo_env demo_home] p
  have "parse_args [Positional [], Api_key demo_key] =
     Inr \<lparr>event = None, description = Some [], application = None, url = None,
          priority = 0, api_key = Some demo_key, set_api_key = None\<rparr>"
    by simp
  then show ?thesis by (simp add: demo_argparse_empty demo_main_empty)
qed

section \<open>Errors and exit status\<close>

lemma log_error: "log prog ''Error: {}'' [x] = Inr (os_path_basename prog @ '': Error: '' @ x)"
  by (simp add: log_def)

lemma log_interrupted:
  "log prog ''Operation interrupted.'' [] = Inr (os_path_basename prog @ '': Operation interrupted.'')"
  by (simp add: log_def)

lemma script_main_run:
  "run_of (script_main env argv fs) =
     (case parse_args argv of
        Inl e \<Rightarrow> \<lparr>result = Inl e, fs_states = [], requests = []\<rparr>
      | Inr args \<Rightarrow> main env args fs)"
  by (simp add: script_main_def Let_def log_error log_interrupted split: sum.splits exc.splits)

lemma script_main_returns:
  "result (run_of (script_main env argv fs)) = Inr () \<Longrightarrow>
     exit_status (script_main env argv fs) = Some 0 \<and> stderr (script_main env argv fs) = []"
  by (simp add: script_main_def Let_def log_error log_interrupted split: sum.splits exc.splits)

lemma script_main_UserError:
  "result (run_of (script_main env argv fs)) = Inl (UserError a m) \<Longrightarrow>
     exit_status (script_main env argv fs) = Some 1 \<and>
     stderr (script_main env argv fs) =
       [Logged (os_path_basename (argv0 env) @ '': Error: '' @ str_args a)]"
  by (simp add: script_main_def Let_def log_error log_interrupted split: sum.splits exc.splits)

lemma script_main_KeyboardInterrupt:
  "result (run_of (script_main env argv fs)) = Inl KeyboardInterrupt \<Longrightarrow>
     exit_status (script_main env argv fs) = Some 2 \<and>
     stderr (script_main env argv fs) =
       [Logged (os_path_basename (argv0 env) @ '': Operation interrupted.'')]"
  by (simp add: script_main_def Let_def log_error log_interrupted split: sum.splits exc.splits)

lemma script_main_parse_error:
  "parse_args argv = Inl e \<Longrightarrow>
     run_of (script_main env argv fs) = \<lparr>result = Inl e, fs_states = [], requests = []\<rparr>"
  by (simp add: script_main_run)

text \<open>
  The errors raised with the message alone are printed as the message; the two raised
  with an argument are printed as the tuple of the template and the argument.
\<close>

lemma str_args_single: "str_args [PStr m] = m"
  by (simp add: str_args_def str_def)

lemma str_args_pair:
  "str_args [PStr t, v] = ''('' @ repr_text printable t @ '', '' @ repr v @ '')''"
  by (simp add: str_args_def repr_tuple_def)

lemma demo_parse_args_priority:
  "parse_args [Priority (Some 3), Positional ''hello''] =
     Inl (UserError [PStr ''Invalid value for --priority: {}'', PInt 3]
            ''Invalid value for --priority: 3'')"
  by code_simp

text \<open>
  Claim C9. A \<open>UserError\<close> ends the process with status 1 and a line on the error stream
  that starts with the program's name, an interrupt ends it with status 2
  (\<open>script_main_UserError\<close>, \<open>script_main_KeyboardInterrupt\<close>). The line holds
  \<open>str\<close> of the exception, which is the message only for the errors raised without an
  argument. For a priority out of range the message is
  \<open>Invalid value for --priority: 3\<close>; what is printed is the tuple of the template and
  the value.
\<close>

theorem priority_error_prints_tuple:
  "parse_args [Priority (Some 3), Positional ''hello''] =
     Inl (UserError [PStr ''Invalid value for --priority: {}'', PInt 3]
            ''Invalid value for --priority: 3'')
   \<and> exit_status (script_main demo_env [Priority (Some 3), Positional ''hello''] demo_home) = Some 1
   \<and> stderr (script_main demo_env [Priority (Some 3), Positional ''hello''] demo_home) =
       [Logged ''prowl: Error: ('Invalid value for --priority: {}', 3)'']"
proof -
  have r: "result (run_of (script_main demo_env [Priority (Some 3), Positional ''hello''] demo_home)) =
      Inl (UserError [PStr ''Invalid value for --priority: {}'', PInt 3]
            ''Invalid value for --priority: 3'')"
    by (simp add: script_main_run demo_parse_args_priority)
  have b: "os_path_basename (argv0 demo_env) = ''prowl''"
    by code_simp
  have s: "str_args [PStr ''Invalid value for --priority: {}'', PInt 3] =
      ''('Invalid value for --priority: {}', 3)''"
    by code_simp
  from script_main_UserError [OF r] b s demo_parse_args_priority show ?thesis by simp
qed

theorem priority_error_prints_tuple_witness:
  "exit_status (script_main demo_env [Priority (Some 3), Positional ''hello''] demo_home) = Some 1
   \<and> stderr (script_main demo_env [Priority (Some 3), Positional ''hello''] demo_home) =
       [Logged ''prowl: Error: ('Invalid value for --priority: {}', 3)'']"
  by (rule conjunct2 [OF priority_error_prints_tuple])

section \<open>Setting the default key excludes everything else\<close>

text \<open>
  What the check of lines 161-166 catches. When the parser accepts the arguments and a
  \<open>--set-api-key\<close> is among them, any positional, \<open>--application\<close>, \<open>--url\<close> or \<open>--api-key\<close>
  on the command line and any priority other than 0 end the run with the
  mutual-exclusion error: status 1, the message on the error stream, no change of the
  file system and no request.
\<close>

lemma set_api_key_exclusive:
  assumes "argparse argv = Inr a" and "set_api_key a \<noteq> None"
    and "(\<exists>s. Positional s \<in> set argv) \<or> (\<exists>s. Application s \<in> set argv)
         \<or> (\<exists>s. Url s \<in> set argv) \<or> (\<exists>s. Api_key s \<in> set argv) \<or> priority a \<noteq> 0"
  shows "parse_args argv = Inl (new_UserError msg_exclusive [])
    \<and> exit_status (script_main env argv fs) = Some 1
    \<and> stderr (script_main env argv fs) =
         [Logged (os_path_basename (argv0 env) @ '': Error: '' @ msg_exclusive)]
    \<and> fs_states (run_of (script_main env argv fs)) = []
    \<and> requests (run_of (script_main env argv fs)) = []"
proof -
  have "event a \<noteq> None \<or> application a \<noteq> None \<or> url a \<noteq> None \<or> priority a \<noteq> 0
      \<or> api_key a \<noteq> None"
    using assms(3)
  proof (elim disjE exE)
    fix s assume "Positional s \<in> set argv"
    then have "positionals argv \<noteq> []" by (auto simp: positionals_Nil_iff)
    then show ?thesis using argparse_Inr(3) [OF assms(1)] by (cases "positionals argv") simp_all
  next
    fix s assume "Application s \<in> set argv"
    moreover have "application_arg (Application s) = Some s" by (simp add: application_arg_def)
    ultimately have "last_some application_arg argv \<noteq> None"
      unfolding last_some_None_iff by force
    then show ?thesis using argparse_Inr(5) [OF assms(1)] by auto
  next
    fix s assume "Url s \<in> set argv"
    moreover have "url_arg (Url s) = Some s" by (simp add: url_arg_def)
    ultimately have "last_some url_arg argv \<noteq> None"
      unfolding last_some_None_iff by force
    then show ?thesis using argparse_Inr(6) [OF assms(1)] by auto
  next
    fix s assume "Api_key s \<in> set argv"
    moreover have "api_key_arg (Api_key s) = Some s" by (simp add: api_key_arg_def)
    ultimately have "last_some api_key_arg argv \<noteq> None"
      unfolding last_some_None_iff by force
    then show ?thesis using argparse_api_key(1) [OF assms(1)] by auto
  next
    assume "priority a \<noteq> 0"
    then show ?thesis by simp
  qed
  then have p: "parse_args argv = Inl (new_UserError msg_exclusive [])"
    using parse_args_set_api_key [OF assms(1,2)] by auto
  then have r: "run_of (script_main env argv fs) =
      \<lparr>result = Inl (UserError [PStr msg_exclusive] msg_exclusive), fs_states = [], requests = []\<rparr>"
    by (simp add: script_main_parse_error UserError_exclusive)
  then have "result (run_of (script_main env argv fs)) = Inl (UserError [PStr msg_exclusive] msg_exclusive)"
    by simp
  from script_main_UserError [OF this] p r show ?thesis
    by (simp add: str_args_single)
qed

lemma demo_argparse_exclusive:
  "argparse [Set_api_key demo_key, Url ''http://x''] =
     Inr \<lparr>event = None, description = None, application = None, url = Some ''http://x'',
          priority = 0, api_key = None, set_api_key = Some demo_key\<rparr>"
  by code_simp

lemma set_api_key_exclusive_url:
  "exit_status (script_main demo_env [Set_api_key demo_key, Url ''http://x''] demo_home) = Some 1
   \<and> stderr (script_main demo_env [Set_api_key demo_key, Url ''http://x''] demo_home) =
       [Logged ''prowl: Error: Cannot use --set-api-key with any other arguments or options.'']
   \<and> fs_states (run_of (script_main demo_env [Set_api_key demo_key, Url ''http://x''] demo_home)) = []
   \<and> requests (run_of (script_main demo_env [Set_api_key demo_key, Url ''http://x''] demo_home)) = []"
proof -
  have b: "os_path_basename (argv0 demo_env) = ''prowl''"
    by code_simp
  have "set_api_key \<lparr>event = None, description = None, application = None,
      url = Some ''http://x'', priority = 0, api_key = None, set_api_key = Some demo_key\<rparr> \<noteq> None"
    by simp
  from set_api_key_exclusive [OF demo_argparse_exclusive this, of demo_env demo_home] b
  show ?thesis by (simp add: msg_exclusive_def)
qed

text \<open>
  A positional on either side of \<open>--set-api-key\<close> does not reach that check: the parser
  refuses the second one as unrecognized and the run ends with status 2.
\<close>

lemma set_api_key_between_positionals:
  "exit_status (script_main demo_env [Positional ''a'', Set_api_key demo_key, Positional ''b'']
      demo_home) = Some 2"
  by code_simp

text \<open>
  Claim C5. The claim fails for \<open>--priority 0\<close>. The check of lines 161-166 looks for a
  \<open>--priority\<close> by comparing the parsed value with 0, which is the parser's default as
  well: \<open>--set-api-key KEY --priority 0\<close> passes, although the message of that check
  speaks of any other arguments or options. The run ends with status 0 and the key is
  written to the settings file.
\<close>

theorem set_api_key_with_priority_zero:
  "parse_args [Set_api_key demo_key, Priority (Some 0)] =
     Inr \<lparr>event = None, description = None, application = None, url = None,
          priority = 0, api_key = None, set_api_key = Some demo_key\<rparr>
   \<and> exit_status (script_main demo_env [Set_api_key demo_key, Priority (Some 0)] demo_home) = Some 0
   \<and> fs_after demo_home
        (fs_states (run_of (script_main demo_env [Set_api_key demo_key, Priority (Some 0)] demo_home)))
        ''/home/u/opt/etc/prowl.json'' =
      Some (File ''{\"default-api-key\": \"0123456789abcdef0123456789abcdef01234567\"}'')"
proof -
  have "parse_args [Set_api_key demo_key, Priority (Some 0)] =
     Inr \<lparr>event = None, description = None, application = None, url = None,
          priority = 0, api_key = None, set_api_key = Some demo_key\<rparr>"
    by code_simp
  moreover have
    "exit_status (script_main demo_env [Set_api_key demo_key, Priority (Some 0)] demo_home) = Some 0"
    by code_simp
  moreover have "fs_after demo_home
        (fs_states (run_of (script_main demo_env [Set_api_key demo_key, Priority (Some 0)] demo_home)))
        ''/home/u/opt/etc/prowl.json'' =
      Some (File ''{\"default-api-key\": \"0123456789abcdef0123456789abcdef01234567\"}'')"
    by code_simp
  ultimately show ?thesis by blast
qed

theorem set_api_key_with_priority_zero_witness:
  "exit_status (script_main demo_env [Set_api_key demo_key, Priority (Some 0)] demo_home) = Some 0
   \<and> fs_after demo_home
        (fs_states (run_of (script_main demo_env [Set_api_key demo_key, Priority (Some 0)] demo_home)))
        ''/home/u/opt/etc/prowl.json'' =
      Some (File ''{\"default-api-key\": \"0123456789abcdef0123456789abcdef01234567\"}'')"
  by (rule conjunct2 [OF set_api_key_with_priority_zero])

section \<open>Where the rewrite of 0 applies\<close>

lemma map_of_iter_arguments:
  "map_of (iter_arguments key app u ev desc prio) ''apikey'' = Some key"
  "map_of (iter_arguments key app u ev desc prio) ''application'' = Some (PStr app)"
  "map_of (iter_arguments key app u ev desc prio) ''url'' = map_option PStr u"
  "map_of (iter_arguments key app u ev desc prio) ''event'' = map_option PStr ev"
  "map_of (iter_arguments key app u ev desc prio) ''description'' =
     (case desc of None \<Rightarrow> None | Some x \<Rightarrow> if x \<noteq> [] then Some (PStr x) else None)"
  "map_of (iter_arguments key app u ev desc prio) ''priority'' =
     (if prio \<noteq> 0 then Some (PInt prio) else None)"
  by (simp_all add: iter_arguments_def split: option.splits)

lemma parse_args_Inr_argparse:
  assumes "parse_args argv = Inr args"
  obtains a where "argparse argv = Inr a" "set_api_key args = set_api_key a"
    "application args = application a" "url args = url a" "api_key args = api_key a"
    "priority args = priority a"
proof (cases "argparse argv")
  case (Inl e)
  with assms show ?thesis by (simp add: parse_args_def)
next
  case (Inr a)
  show ?thesis
  proof (cases "set_api_key a")
    case None
    with Inr assms have "set_api_key args = set_api_key a \<and> application args = application a
        \<and> url args = url a \<and> api_key args = api_key a \<and> priority args = priority a"
      by (auto simp: parse_args_notification split: if_splits)
    with Inr that show ?thesis by blast
  next
    case (Some k)
    with Inr assms have "args = a"
      by (auto simp: parse_args_set_api_key split: if_splits)
    with Inr that show ?thesis by blast
  qed
qed

text \<open>
  Claim C2, as the code has it. The rewrite of \<open>0\<close> to \<open>0\<close> followed by a space is the
  argument type of the two positionals and of \<open>--application\<close>. In the request an event
  and a description that were given as positionals and an application that was given
  with \<open>--application\<close> are \<open>0\<close> with a space when they were \<open>0\<close>, any other value is
  unchanged (an empty description is left out). The \<open>--url\<close> value and the \<open>--api-key\<close>
  value are sent as given, and so is the description that is taken from \<open>--url\<close> when
  there is no positional: the rewrite does not reach it.
\<close>

theorem zero_rewrite_scope:
  assumes "parse_args argv = Inr args" and "(u, flds) \<in> set (requests (main env args fs))"
  shows "(positionals argv = [] \<longrightarrow>
            map_of flds ''event'' = None
            \<and> (\<exists>s. last_some url_arg argv = Some s
                 \<and> map_of flds ''description'' = (if s = [] then None else Some (PStr s))))
    \<and> (\<forall>p. positionals argv = [p] \<longrightarrow>
            map_of flds ''event'' = None
            \<and> map_of flds ''description'' =
                (if p = [] then None else Some (PStr (if p = ''0'' then ''0 '' else p))))
    \<and> (\<forall>p q. positionals argv = [p, q] \<longrightarrow>
            map_of flds ''event'' = Some (PStr (if p = ''0'' then ''0 '' else p))
            \<and> map_of flds ''description'' =
                (if q = [] then None else Some (PStr (if q = ''0'' then ''0 '' else q))))
    \<and> length (positionals argv) \<le> 2
    \<and> (\<forall>s. last_some application_arg argv = Some s \<longrightarrow>
            map_of flds ''application'' = Some (PStr (if s = ''0'' then ''0 '' else s)))
    \<and> (\<forall>s. last_some url_arg argv = Some s \<longrightarrow> map_of flds ''url'' = Some (PStr s))
    \<and> (\<forall>k. last_some api_key_arg argv = Some k \<longrightarrow> map_of flds ''apikey'' = Some (PStr k))"
proof -
  from assms(1) obtain a where a: "argparse argv = Inr a" "set_api_key args = set_api_key a"
    "application args = application a" "url args = url a" "api_key args = api_key a"
    by (rule parse_args_Inr_argparse)
  from main_posted [OF assms(2)] obtain key app where
    none: "set_api_key args = None" and
    flds: "flds = iter_arguments key app (url args) (event args) (description args) (priority args)" and
    key: "case api_key args of Some k \<Rightarrow> key = PStr k | None \<Rightarrow> key \<noteq> PNone \<and>
              fst (Settings_get (Settings_init (settings_file env)) ''default-api-key'' PNone fs) = Inr key" and
    app: "case application args of Some x \<Rightarrow> app = x
          | None \<Rightarrow> format user_at_host [user env, hostname env] = Inr app"
    by auto
  from none a have sa: "set_api_key a = None" by simp
  note pa = parse_args_notification [OF a(1) sa]
  note ev = argparse_Inr(3) [OF a(1)] and de = argparse_Inr(4) [OF a(1)]
  note ur = argparse_Inr(6) [OF a(1)]
  have at: "api_argument_type x = (if x = ''0'' then ''0 '' else x)" for x
    by (simp add: api_argument_type_def)
  have 0: "positionals argv = [] \<longrightarrow>
      map_of flds ''event'' = None
      \<and> (\<exists>s. last_some url_arg argv = Some s
           \<and> map_of flds ''description'' = (if s = [] then None else Some (PStr s)))"
  proof
    assume h: "positionals argv = []"
    then have n: "event a = None" "description a = None"
      using ev de by simp_all
    with assms(1) obtain s where s: "url a = Some s"
      by (cases "url a") (auto simp: pa)
    with n assms(1) have "event args = None" "description args = Some s"
      by (auto simp: pa split: if_splits)
    with s ur show "map_of flds ''event'' = None
      \<and> (\<exists>s. last_some url_arg argv = Some s
           \<and> map_of flds ''description'' = (if s = [] then None else Some (PStr s)))"
      by (simp add: flds map_of_iter_arguments)
  qed
  have 1: "\<forall>p. positionals argv = [p] \<longrightarrow>
      map_of flds ''event'' = None
      \<and> map_of flds ''description'' =
          (if p = [] then None else Some (PStr (if p = ''0'' then ''0 '' else p)))"
  proof (intro allI impI)
    fix p assume h: "positionals argv = [p]"
    then have "event a = Some (api_argument_type p)" "description a = None"
      using ev de by simp_all
    with assms(1) have "event args = None" "description args = Some (api_argument_type p)"
      by (auto simp: pa split: if_splits)
    then show "map_of flds ''event'' = None
      \<and> map_of flds ''description'' =
          (if p = [] then None else Some (PStr (if p = ''0'' then ''0 '' else p)))"
      by (simp add: flds map_of_iter_arguments at)
  qed
  have 2: "\<forall>p q. positionals argv = [p, q] \<longrightarrow>
      map_of flds ''event'' = Some (PStr (if p = ''0'' then ''0 '' else p))
      \<and> map_of flds ''description'' =
          (if q = [] then None else Some (PStr (if q = ''0'' then ''0 '' else q)))"
  proof (intro allI impI)
    fix p q assume h: "positionals argv = [p, q]"
    then have "event a = Some (api_argument_type p)" "description a = Some (api_argument_type q)"
      using ev de by simp_all
    with assms(1) have "event args = Some (api_argument_type p)"
      "description args = Some (api_argument_type q)"
      by (auto simp: pa split: if_splits)
    then show "map_of flds ''event'' = Some (PStr (if p = ''0'' then ''0 '' else p))
      \<and> map_of flds ''description'' =
          (if q = [] then None else Some (PStr (if q = ''0'' then ''0 '' else q)))"
      by (simp add: flds map_of_iter_arguments at)
  qed
  have 3: "\<forall>s. last_some application_arg argv = Some s \<longrightarrow>
      map_of flds ''application'' = Some (PStr (if s = ''0'' then ''0 '' else s))"
  proof (intro allI impI)
    fix s assume "last_some application_arg argv = Some s"
    then have "application args = Some (api_argument_type s)"
      using argparse_Inr(5) [OF a(1)] a(3) by simp
    with app show "map_of flds ''application'' = Some (PStr (if s = ''0'' then ''0 '' else s))"
      by (simp add: flds map_of_iter_arguments at)
  qed
  have 4: "\<forall>s. last_some url_arg argv = Some s \<longrightarrow> map_of flds ''url'' = Some (PStr s)"
    using ur a(4) by (simp add: flds map_of_iter_arguments)
  have 5: "\<forall>k. last_some api_key_arg argv = Some k \<longrightarrow> map_of flds ''apikey'' = Some (PStr k)"
  proof (intro allI impI)
    fix k assume "last_some api_key_arg argv = Some k"
    then have "api_key args = Some k"
      using argparse_api_key(1) [OF a(1)] a(5) by simp
    with key show "map_of flds ''apikey'' = Some (PStr k)"
      by (simp add: flds map_of_iter_arguments)
  qed
  note 6 = argparse_Inr(2) [OF a(1)]
  from 0 1 2 3 4 5 6 show ?thesis by blast
qed

lemma demo_parse_args_zero:
  "parse_args [Positional ''0'', Positional ''0'', Application ''0'', Url ''0'', Api_key demo_key] =
     Inr \<lparr>event = Some ''0 '', description = Some ''0 '', application = Some ''0 '',
          url = Some ''0'', priority = 0, api_key = Some demo_key, set_api_key = None\<rparr>"
  by code_simp

lemma demo_main_zero:
  "requests (main demo_env
      \<lparr>event = Some ''0 '', description = Some ''0 '', application = Some ''0 '',
       url = Some ''0'', priority = 0, api_key = Some demo_key, set_api_key = None\<rparr> demo_home) =
    [(endpoint, [(''apikey'', PStr demo_key), (''application'', PStr ''0 ''), (''url'', PStr ''0''),
       (''event'', PStr ''0 ''), (''description'', PStr ''0 '')])]"
  by (simp add: main_def demo_env_def dict_of_pairs_distinct iter_arguments_def)

lemma demo_parse_args_url_zero:
  "parse_args [Url ''0'', Api_key demo_key] =
     Inr \<lparr>event = None, description = Some ''0'', application = None,
          url = Some ''0'', priority = 0, api_key = Some demo_key, set_api_key = None\<rparr>"
  by code_simp

lemma demo_main_url_zero:
  "requests (main demo_env
      \<lparr>event = None, description = Some ''0'', application = None,
       url = Some ''0'', priority = 0, api_key = Some demo_key, set_api_key = None\<rparr> demo_home) =
    [(endpoint, [(''apikey'', PStr demo_key), (''application'', PStr ''u@h''), (''url'', PStr ''0''),
       (''description'', PStr ''0'')])]"
  by (simp add: main_def demo_env_def dict_of_pairs_distinct iter_arguments_def format_user_host)

theorem zero_rewrite_scope_witness:
  "parse_args [Positional ''0'', Positional ''0'', Application ''0'', Url ''0'', Api_key demo_key] =
     Inr \<lparr>event = Some ''0 '', description = Some ''0 '', application = Some ''0 '',
          url = Some ''0'', priority = 0, api_key = Some demo_key, set_api_key = None\<rparr>
   \<and> (endpoint, [(''apikey'', PStr demo_key), (''application'', PStr ''0 ''), (''url'', PStr ''0''),
       (''event'', PStr ''0 ''), (''description'', PStr ''0 '')])
     \<in> set (requests (main demo_env
      \<lparr>event = Some ''0 '', description = Some ''0 '', application = Some ''0 '',
       url = Some ''0'', priority = 0, api_key = Some demo_key, set_api_key = None\<rparr> demo_home))
   \<and> map_of [(''apikey'', PStr demo_key), (''application'', PStr ''0 ''), (''url'', PStr ''0''),
       (''event'', PStr ''0 ''), (''description'', PStr ''0 '')] ''application'' = Some (PStr ''0 '')
   \<and> map_of [(''apikey'', PStr demo_key), (''application'', PStr ''0 ''), (''url'', PStr ''0''),
       (''event'', PStr ''0 ''), (''description'', PStr ''0 '')] ''url'' = Some (PStr ''0'')
   \<and> parse_args [Url ''0'', Api_key demo_key] =
     Inr \<lparr>event = None, description = Some ''0'', application = None,
          url = Some ''0'', priority = 0, api_key = Some demo_key, set_api_key = None\<rparr>
   \<and> (endpoint, [(''apikey'', PStr demo_key), (''application'', PStr ''u@h''), (''url'', PStr ''0''),
       (''description'', PStr ''0'')])
     \<in> set (requests (main demo_env
      \<lparr>event = None, description = Some ''0'', application = None,
       url = Some ''0'', priority = 0, api_key = Some demo_key, set_api_key = None\<rparr> demo_home))
   \<and> map_of [(''apikey'', PStr demo_key), (''application'', PStr ''u@h''), (''url'', PStr ''0''),
       (''description'', PStr ''0'')] ''description'' = Some (PStr ''0'')"
proof -
  have m: "(endpoint, [(''apikey'', PStr demo_key), (''application'', PStr ''0 ''), (''url'', PStr ''0''),
       (''event'', PStr ''0 ''), (''description'', PStr ''0 '')])
     \<in> set (requests (main demo_env
      \<lparr>event = Some ''0 '', description = Some ''0 '', application = Some ''0 '',
       url = Some ''0'', priority = 0, api_key = Some demo_key, set_api_key = None\<rparr> demo_home))"
    by (simp add: demo_main_zero)
  have n: "(endpoint, [(''apikey'', PStr demo_key), (''application'', PStr ''u@h''), (''url'', PStr ''0''),
       (''description'', PStr ''0'')])
     \<in> set (requests (main demo_env
      \<lparr>event = None, description = Some ''0'', application = None,
       url = Some ''0'', priority = 0, api_key = Some demo_key, set_api_key = None\<rparr> demo_home))"
    by (simp add: demo_main_url_zero)
  have l: "last_some application_arg
      [Positional ''0'', Positional ''0'', Application ''0'', Url ''0'', Api_key demo_key] = Some ''0''"
    "last_some url_arg
      [Positional ''0'', Positional ''0'', Application ''0'', Url ''0'', Api_key demo_key] = Some ''0''"
    "last_some url_arg [Url ''0'', Api_key demo_key] = Some ''0''"
    "positionals [Url ''0'', Api_key demo_key] = []"
    by (simp_all add: application_arg_def url_arg_def)
  from zero_rewrite_scope [OF demo_parse_args_zero m] zero_rewrite_scope [OF demo_parse_args_url_zero n]
    l demo_parse_args_zero demo_parse_args_url_zero m n
  show ?thesis by simp
qed

text \<open>
  Claim C2 as stated fails twice. \<open>--application 0\<close> reaches the request as \<open>0\<close> with a
  space, so the application does not pass through unmodified; and with \<open>--url 0\<close> and no
  positional the description of the request is the bare \<open>0\<close>, so not every description
  equal to \<open>0\<close> is rewritten.
\<close>

theorem zero_rewrite_counterexamples:
  "requests (run_of (script_main demo_env [Application ''0'', Api_key demo_key, Positional ''hi'']
      demo_home)) =
    [(endpoint, [(''apikey'', PStr demo_key), (''application'', PStr ''0 ''),
       (''description'', PStr ''hi'')])]
   \<and> requests (run_of (script_main demo_env [Url ''0'', Api_key demo_key] demo_home)) =
    [(endpoint, [(''apikey'', PStr demo_key), (''application'', PStr ''u@h''),
       (''url'', PStr ''0''), (''description'', PStr ''0'')])]"
proof -
  have "requests (run_of (script_main demo_env [Application ''0'', Api_key demo_key, Positional ''hi'']
      demo_home)) =
    [(endpoint, [(''apikey'', PStr demo_key), (''application'', PStr ''0 ''),
       (''description'', PStr ''hi'')])]"
    by code_simp
  moreover have "requests (run_of (script_main demo_env [Url ''0'', Api_key demo_key] demo_home)) =
    [(endpoint, [(''apikey'', PStr demo_key), (''application'', PStr ''u@h''),
       (''url'', PStr ''0''), (''description'', PStr ''0'')])]"
    by code_simp
  ultimately show ?thesis by blast
qed

section \<open>The stored default key\<close>

text \<open>
  Claim C4, as the code has it. Without a key on the command line, whatever
  \<open>settings.get('default-api-key')\<close> returns, \<open>None\<close> apart, is the \<open>apikey\<close> of the request
  that is posted: the stored value is not matched against the pattern.
\<close>

theorem stored_key_used_unchecked:
  assumes "set_api_key args = None" and "api_key args = None"
    and "Settings_get (Settings_init (settings_file env)) ''default-api-key'' PNone fs = (Inr v, st)"
    and "v \<noteq> PNone"
  shows "\<exists>flds. requests (main env args fs) = [(endpoint, flds)] \<and> map_of flds ''apikey'' = Some v"
proof -
  obtain app where app: "(case application args of Some a \<Rightarrow> Inr a
      | None \<Rightarrow> format user_at_host [user env, hostname env]) = Inr app"
    by (cases "application args") (simp_all add: format_user_host)
  let ?flds = "iter_arguments v app (url args) (event args) (description args) (priority args)"
  have "requests (main env args fs) = [(endpoint, ?flds)]"
    using assms app
    by (simp add: main_def Let_def dict_of_iter_arguments split: http_result.splits)
  moreover have "map_of ?flds ''apikey'' = Some v"
    by (simp add: map_of_iter_arguments)
  ultimately show ?thesis by blast
qed

lemma demo_stored_get:
  "Settings_get (Settings_init (settings_file demo_env)) ''default-api-key'' PNone demo_stored =
     (Inr (PStr ''xyz''),
      \<lparr>settings_path = ''/home/u/opt/etc/prowl.json'',
       settings_values = PDict [(''default-api-key'', PStr ''xyz'')]\<rparr>)"
  by code_simp

theorem stored_key_used_unchecked_witness:
  "Settings_get (Settings_init (settings_file demo_env)) ''default-api-key'' PNone demo_stored =
     (Inr (PStr ''xyz''),
      \<lparr>settings_path = ''/home/u/opt/etc/prowl.json'',
       settings_values = PDict [(''default-api-key'', PStr ''xyz'')]\<rparr>)
   \<and> (\<exists>flds. requests (main demo_env
          \<lparr>event = None, description = Some ''hi'', application = None, url = None,
           priority = 0, api_key = None, set_api_key = None\<rparr> demo_stored) = [(endpoint, flds)]
        \<and> map_of flds ''apikey'' = Some (PStr ''xyz''))"
  using stored_key_used_unchecked [OF _ _ demo_stored_get,
      of "\<lparr>event = None, description = Some ''hi'', application = None, url = None,
           priority = 0, api_key = None, set_api_key = None\<rparr>"]
  by (simp add: demo_stored_get)

text \<open>
  Claim C4 as stated fails: with \<open>xyz\<close> stored as the default key, which the validator
  rejects, a notification is posted with \<open>xyz\<close> as its key and the run ends with status 0.
\<close>

theorem stored_key_not_checked:
  "api_key_type ''xyz'' =
     Inl (UserError [PStr ''Invalid API key specified.''] ''Invalid API key specified.'')
   \<and> exit_status (script_main demo_env [Positional ''hi''] demo_stored) = Some 0
   \<and> requests (run_of (script_main demo_env [Positional ''hi''] demo_stored)) =
       [(endpoint, [(''apikey'', PStr ''xyz''), (''application'', PStr ''u@h''),
          (''description'', PStr ''hi'')])]"
proof -
  have "api_key_type ''xyz'' =
     Inl (UserError [PStr ''Invalid API key specified.''] ''Invalid API key specified.'')"
    by code_simp
  moreover have "exit_status (script_main demo_env [Positional ''hi''] demo_stored) = Some 0"
    by code_simp
  moreover have "requests (run_of (script_main demo_env [Positional ''hi''] demo_stored)) =
       [(endpoint, [(''apikey'', PStr ''xyz''), (''application'', PStr ''u@h''),
          (''description'', PStr ''hi'')])]"
    by code_simp
  ultimately show ?thesis by blast
qed

section \<open>Writing the settings file\<close>

lemma length_rstrip_seps: "length (rstrip_seps s) \<le> length s"
  by (simp add: rstrip_seps_def) (metis length_dropWhile_le length_rev)

lemma os_path_split_length:
  assumes "os_path_split p = (h, t)"
  shows "length h + length t \<le> length p"
proof -
  let ?h0 = "rev (dropWhile (\<lambda>c. c \<noteq> sep) (rev p))"
  let ?t0 = "rev (takeWhile (\<lambda>c. c \<noteq> sep) (rev p))"
  have "length ?h0 + length ?t0 = length (rev p)"
    by (metis add.commute length_append length_rev takeWhile_dropWhile_id)
  moreover from assms have "t = ?t0" "h = ?h0 \<or> h = rstrip_seps ?h0"
    by (auto simp: os_path_split_def Let_def split: if_splits)
  ultimately show ?thesis
    using length_rstrip_seps [of ?h0] by auto
qed

lemma dirname_shorter:
  "os_path_basename p \<noteq> [] \<Longrightarrow> length (os_path_dirname p) < length p"
proof -
  assume "os_path_basename p \<noteq> []"
  then have "0 < length (os_path_basename p)" by simp
  moreover have "length (os_path_dirname p) + length (os_path_basename p) \<le> length p"
    by (rule os_path_split_length) (simp add: os_path_dirname_def os_path_basename_def)
  ultimately show ?thesis by linarith
qed

lemma dirname_temp_path: "os_path_dirname (p @ ''~'') = os_path_dirname p"
  by (simp add: os_path_dirname_def os_path_split_def sep_def Let_def)

lemma fs_after_cases: "fs_after fs t = fs \<or> fs_after fs t \<in> set t"
  by (cases t rule: rev_cases) (simp_all add: fs_after_def)

lemma os_mkdir_changes:
  "os_mkdir fs name = Inr fs' \<Longrightarrow> fs' = fs(name \<mapsto> Dir)"
  by (auto simp: os_mkdir_def split: if_splits option.splits)

lemma os_makedirs_step:
  assumes "s \<in> set (snd (os_makedirs n fs name))" and "s q \<noteq> fs q"
  shows "length q \<le> length name \<and> s q = Some Dir"
  using assms
proof (induction n arbitrary: name s q)
  case 0
  then show ?case by simp
next
  case (Suc n)
  obtain head0 tail0 where s0: "os_path_split name = (head0, tail0)" by (cases "os_path_split name")
  obtain head tail where s1: "(if tail0 = [] then os_path_split head0 else (head0, tail0)) = (head, tail)"
    by (cases "if tail0 = [] then os_path_split head0 else (head0, tail0)")
  have len: "length head \<le> length name"
  proof (cases "tail0 = []")
    case True
    with s1 have "os_path_split head0 = (head, tail)" by simp
    then show ?thesis
      using os_path_split_length [of head0 head tail] os_path_split_length [OF s0] by simp
  next
    case False
    with s1 show ?thesis using os_path_split_length [OF s0] by simp
  qed
  have mk: "length q \<le> length name \<and> s q = Some Dir"
    if "os_mkdir f name = Inr s" "f = fs \<or> (\<forall>q. f q \<noteq> fs q \<longrightarrow> length q \<le> length name \<and> f q = Some Dir)" for f
  proof -
    from that(1) have "s = f(name \<mapsto> Dir)" by (rule os_mkdir_changes)
    with that(2) Suc.prems(2) show ?thesis by (cases "q = name") auto
  qed
  show ?case
  proof (cases "head \<noteq> [] \<and> tail \<noteq> [] \<and> \<not> os_path_exists fs head")
    case False
    with Suc.prems(1) s0 s1 obtain s' where "os_mkdir fs name = Inr s'" "s = s'"
      by (auto simp: Let_def split: sum.splits)
    then show ?thesis using mk [of fs] by simp
  next
    case True
    obtain r t where rec: "os_makedirs n fs head = (r, t)" by (cases "os_makedirs n fs head")
    have t: "length q' \<le> length name \<and> s' q' = Some Dir" if "s' \<in> set t" "s' q' \<noteq> fs q'" for s' q'
    proof -
      from that rec have "length q' \<le> length head \<and> s' q' = Some Dir"
        using Suc.IH [of s' head q'] by simp
      with len show ?thesis by simp
    qed
    have after: "fs_after fs t = fs \<or>
        (\<forall>q. fs_after fs t q \<noteq> fs q \<longrightarrow> length q \<le> length name \<and> fs_after fs t q = Some Dir)"
      using fs_after_cases [of fs t] t by auto
    from Suc.prems(1) s0 s1 True rec
    have "s \<in> set t \<or> os_mkdir (fs_after fs t) name = Inr s"
      by (auto simp: Let_def split: sum.splits if_splits)
    then show ?thesis
    proof
      assume "s \<in> set t"
      then show ?thesis using t Suc.prems(2) by blast
    next
      assume "os_mkdir (fs_after fs t) name = Inr s"
      then show ?thesis using mk [of "fs_after fs t"] after by blast
    qed
  qed
qed


lemma open_wb_changes: "open_wb fs p = Inr fs' \<Longrightarrow> fs' = fs(p \<mapsto> File [])"
  by (auto simp: open_wb_def split: if_splits option.splits)

lemma open_wb_parent:
  "open_wb fs p = Inr fs' \<Longrightarrow>
     all_seps (os_path_dirname p) \<or> fs (os_path_dirname p) = Some Dir"
  by (auto simp: open_wb_def parent_check_def Let_def all_seps_def
      split: if_splits option.splits node.splits)

lemma os_rename_changes:
  "os_rename fs src dst = Inr fs' \<Longrightarrow>
     \<exists>d. fs src = Some (File d) \<and> fs' = fs(src := None, dst \<mapsto> File d)"
  by (auto simp: os_rename_def split: if_splits option.splits node.splits)

lemma fs_after_snoc: "fs_after fs (t @ [f]) = f"
  by (simp add: fs_after_def)

lemma last_written:
  assumes "f p = Some (File [])"
  shows "fs_after fs (t @ [f] @ map (\<lambda>n. f(p \<mapsto> File (take n data))) [1..<Suc (length data)]) p =
     (f(p \<mapsto> File data)) p"
proof (cases data)
  case Nil
  with assms show ?thesis by (simp add: fs_after_def)
next
  case (Cons c cs)
  then have ne: "map (\<lambda>n. f(p \<mapsto> File (take n data))) [1..<Suc (length data)] \<noteq> []"
    by simp
  have "last (map (\<lambda>n. f(p \<mapsto> File (take n data))) [1..<Suc (length data)]) =
      f(p \<mapsto> File (take (length data) data))"
    using Cons by (simp add: last_map del: upt_Suc)
  with ne show ?thesis by (simp add: fs_after_def del: upt_Suc)
qed


text \<open>
  A run of \<open>write_file\<close> on a path that names a file (it has a last component): either
  it fails and the target was never touched, or its last state is the one the renaming
  leaves, and that is the only state in which the target differs from before.
\<close>

lemma write_file_decompose:
  assumes "os_path_basename path \<noteq> []"
  obtains (failed) e t where "write_file fs path data = (Inl e, t)" "\<forall>s \<in> set t. s path = fs path"
  | (renamed) t f where "write_file fs path data = (Inr (), t @ [f])"
      "\<forall>s \<in> set t. s path = fs path" "f path = Some (File data)" "f (path @ ''~'') = None"
      "f (os_path_dirname path) = Some Dir \<or> all_seps (os_path_dirname path)"
proof -
  define dir where "dir = os_path_dirname path"
  define temp where "temp = path @ ''~''"
  obtain r t where rt: "(if \<not> os_path_exists fs dir then os_makedirs (Suc (length dir)) fs dir
      else (Inr (), [])) = (r, t)"
    by (cases "if \<not> os_path_exists fs dir then os_makedirs (Suc (length dir)) fs dir else (Inr (), [])")
  define f0 where "f0 = fs_after fs t"
  have lp: "length dir < length path" "length dir < length temp" "temp \<noteq> path"
    using dirname_shorter [OF assms] by (simp_all add: dir_def temp_def)
  have t_far: "s q = fs q" if "s \<in> set t" "length dir < length q" for s q
  proof -
    from rt that(1) have "s \<in> set (snd (os_makedirs (Suc (length dir)) fs dir))"
      by (auto split: if_splits)
    then show ?thesis using os_makedirs_step [of s "Suc (length dir)" fs dir q] that(2) by force
  qed
  have f0_far: "f0 q = fs q" if "length dir < length q" for q
    using fs_after_cases [of fs t] t_far that by (auto simp: f0_def)
  have t_path: "\<forall>s \<in> set t. s path = fs path"
    using t_far lp by blast
  have wf: "write_file fs path data =
      (case r of
         Inl e \<Rightarrow> (Inl e, t)
       | Inr _ \<Rightarrow>
          (case open_wb f0 temp of
             Inl e \<Rightarrow> (Inl e, t)
           | Inr fs1 \<Rightarrow>
               (let written = map (\<lambda>n. fs1(temp \<mapsto> File (take n data))) [1..<Suc (length data)];
                    t1 = t @ [fs1] @ written
                in
                case os_rename (fs_after fs t1) temp path of
                  Inl e \<Rightarrow> (Inl e, t1)
                | Inr fs2 \<Rightarrow> (Inr (), t1 @ [fs2]))))"
    unfolding write_file_def Let_def dir_def [symmetric] temp_def [symmetric] rt f0_def
    by simp
  show ?thesis
  proof (cases r)
    case (Inl e)
    with wf have "write_file fs path data = (Inl e, t)" by simp
    then show ?thesis using t_path by (rule failed)
  next
    case (Inr u)
    show ?thesis
    proof (cases "open_wb f0 temp")
      case (Inl e)
      with wf Inr have "write_file fs path data = (Inl e, t)" by simp
      then show ?thesis using t_path by (rule failed)
    next
      case fs1: (Inr fs1)
      define written where
        "written = map (\<lambda>n. fs1(temp \<mapsto> File (take n data))) [1..<Suc (length data)]"
      define t1 where "t1 = t @ [fs1] @ written"
      have fs1_eq: "fs1 = f0(temp \<mapsto> File [])"
        using fs1 by (rule open_wb_changes)
      have t1_path: "\<forall>s \<in> set t1. s path = fs path"
        using t_path lp f0_far [of path] by (auto simp: t1_def written_def fs1_eq)
      have last_temp: "fs_after fs t1 temp = Some (File data)"
        using last_written [of fs1 temp fs t data] by (simp add: t1_def written_def fs1_eq)
      have last_other: "fs_after fs t1 q = f0 q" if "q \<noteq> temp" for q
      proof -
        have "fs_after fs t1 = fs1 \<or> fs_after fs t1 \<in> set written"
          by (cases written rule: rev_cases) (simp_all add: t1_def fs_after_def)
        then show ?thesis using that by (auto simp: written_def fs1_eq)
      qed
      show ?thesis
      proof (cases "os_rename (fs_after fs t1) temp path")
        case (Inl e)
        with wf Inr fs1 have "write_file fs path data = (Inl e, t1)"
          by (simp add: t1_def written_def Let_def)
        then show ?thesis using t1_path by (rule failed)
      next
        case fs2: (Inr fs2)
        with wf Inr fs1 have w: "write_file fs path data = (Inr (), t1 @ [fs2])"
          by (simp add: t1_def written_def Let_def)
        from os_rename_changes [OF fs2] last_temp
        have fs2_eq: "fs2 = (fs_after fs t1)(temp := None, path \<mapsto> File data)" by auto
        have "fs2 path = Some (File data)" by (simp add: fs2_eq)
        moreover have "fs2 (path @ ''~'') = None"
          using lp(3) by (simp add: fs2_eq temp_def)
        moreover have "fs2 (os_path_dirname path) = Some Dir \<or> all_seps (os_path_dirname path)"
        proof -
          have ne: "dir \<noteq> temp" "dir \<noteq> path" using lp by auto
          from open_wb_parent [OF fs1] have "all_seps dir \<or> f0 dir = Some Dir"
            by (simp add: temp_def dirname_temp_path dir_def)
          then show ?thesis using ne last_other [of dir] by (auto simp: fs2_eq dir_def)
        qed
        ultimately show ?thesis using w t1_path by (intro renamed [of t1 fs2]) auto
      qed
    qed
  qed
qed

lemma os_mkdir_error: "os_mkdir fs name \<noteq> Inl Outside_model"
  by (auto simp: os_mkdir_def parent_check_def Let_def split: option.splits node.splits)

text \<open>The depth bound that \<open>write_file\<close> gives \<open>os_makedirs\<close> is never reached.\<close>

lemma os_makedirs_fuel:
  "length name < n \<Longrightarrow> fst (os_makedirs n fs name) \<noteq> Inl Outside_model"
proof (induction n arbitrary: name)
  case 0
  then show ?case by simp
next
  case (Suc n)
  obtain head0 tail0 where s0: "os_path_split name = (head0, tail0)" by (cases "os_path_split name")
  obtain head tail where s1: "(if tail0 = [] then os_path_split head0 else (head0, tail0)) = (head, tail)"
    by (cases "if tail0 = [] then os_path_split head0 else (head0, tail0)")
  have len: "tail \<noteq> [] \<Longrightarrow> length head < length name"
  proof (cases "tail0 = []")
    case True
    assume "tail \<noteq> []"
    moreover from True s1 have "os_path_split head0 = (head, tail)" by simp
    ultimately show ?thesis
      using os_path_split_length [of head0 head tail] os_path_split_length [OF s0]
      by (cases tail) auto
  next
    case False
    assume "tail \<noteq> []"
    with False s1 show ?thesis using os_path_split_length [OF s0] by (cases tail) auto
  qed
  show ?case
  proof (cases "head \<noteq> [] \<and> tail \<noteq> [] \<and> \<not> os_path_exists fs head")
    case False
    with s0 s1 show ?thesis
      using os_mkdir_error [of fs name] by (auto simp: Let_def split: sum.splits)
  next
    case True
    then have "length head < n" using len Suc.prems by simp
    from Suc.IH [OF this] have "fst (os_makedirs n fs head) \<noteq> Inl Outside_model" .
    with True s0 s1 show ?thesis
      using os_mkdir_error [of "fs_after fs (snd (os_makedirs n fs head))" name]
      by (auto simp: Let_def split: sum.splits prod.splits)
  qed
qed

lemma settings_file_basename: "os_path_basename (settings_file env) = ''prowl.json''"
  by (simp add: settings_file_def os_path_join_def os_path_basename_def os_path_split_def sep_def
      Let_def)

text \<open>
  Claim C7. Saving the settings writes \<open>json.dumps\<close> of the whole mapping, encoded, with
  \<open>write_file\<close>. For a settings path that names a file (as the path \<open>main\<close> uses does,
  \<open>settings_file_basename\<close>): in every state the file system goes through, the target
  holds what it held before or the complete new content; when the save succeeds, the
  target changes in the last step only, the renaming, after which it holds the new
  content, the temporary file (the target's path followed by a tilde, in the same
  directory) is gone, and the directory of the target exists.
\<close>

theorem settings_file_never_partial:
  assumes "os_path_basename (settings_path self) \<noteq> []"
  shows "(\<forall>s \<in> set (snd (Settings_save_values self fs)).
            s (settings_path self) = fs (settings_path self)
            \<or> (\<exists>js. json_dumps (settings_values self) = Inr js
                  \<and> s (settings_path self) = Some (File (encode js))))
    \<and> (fst (Settings_save_values self fs) = Inr () \<and> settings_values self \<noteq> PNone \<longrightarrow>
         (\<exists>js t f. json_dumps (settings_values self) = Inr js
            \<and> snd (Settings_save_values self fs) = t @ [f]
            \<and> (\<forall>s \<in> set t. s (settings_path self) = fs (settings_path self))
            \<and> f (settings_path self) = Some (File (encode js))
            \<and> f (settings_path self @ ''~'') = None
            \<and> (f (os_path_dirname (settings_path self)) = Some Dir
                 \<or> all_seps (os_path_dirname (settings_path self)))))
    \<and> os_path_dirname (settings_path self @ ''~'') = os_path_dirname (settings_path self)"
proof (cases "settings_values self = PNone \<or> (\<exists>e. json_dumps (settings_values self) = Inl e)")
  case True
  then have "Settings_save_values self fs = (Inr (), []) \<and> settings_values self = PNone
      \<or> (\<exists>e. Settings_save_values self fs = (Inl e, []))"
    by (auto simp: Settings_save_values_def)
  then show ?thesis by (auto simp: dirname_temp_path)
next
  case False
  then obtain js where js: "json_dumps (settings_values self) = Inr js"
    by (cases "json_dumps (settings_values self)") auto
  with False have save: "Settings_save_values self fs = write_file fs (settings_path self) (encode js)"
    by (simp add: Settings_save_values_def)
  let ?p = "settings_path self"
  consider (failed) e t where "write_file fs ?p (encode js) = (Inl e, t)"
      "\<forall>s \<in> set t. s ?p = fs ?p"
    | (renamed) t f where "write_file fs ?p (encode js) = (Inr (), t @ [f])"
      "\<forall>s \<in> set t. s ?p = fs ?p" "f ?p = Some (File (encode js))" "f (?p @ ''~'') = None"
      "f (os_path_dirname ?p) = Some Dir \<or> all_seps (os_path_dirname ?p)"
    by (rule write_file_decompose [OF assms, where fs = fs and data = "encode js"]) blast+
  then show ?thesis
  proof cases
    case (failed e t)
    with save js show ?thesis by (simp add: dirname_temp_path)
  next
    case (renamed t f)
    have 1: "\<forall>s \<in> set (snd (Settings_save_values self fs)).
        s (settings_path self) = fs (settings_path self)
        \<or> (\<exists>js. json_dumps (settings_values self) = Inr js
              \<and> s (settings_path self) = Some (File (encode js)))"
      using renamed save js by auto
    have 2: "\<exists>js t f. json_dumps (settings_values self) = Inr js
        \<and> snd (Settings_save_values self fs) = t @ [f]
        \<and> (\<forall>s \<in> set t. s (settings_path self) = fs (settings_path self))
        \<and> f (settings_path self) = Some (File (encode js))
        \<and> f (settings_path self @ ''~'') = None
        \<and> (f (os_path_dirname (settings_path self)) = Some Dir
             \<or> all_seps (os_path_dirname (settings_path self)))"
      using renamed save js by (intro exI [of _ js] exI [of _ t] exI [of _ f]) simp
    from 1 2 show ?thesis by (simp add: dirname_temp_path)
  qed
qed


theorem settings_file_never_partial_witness:
  "os_path_basename ''/home/u/opt/etc/prowl.json'' \<noteq> []
   \<and> fst (Settings_save_values
        \<lparr>settings_path = ''/home/u/opt/etc/prowl.json'',
         settings_values = PDict [(''default-api-key'', PStr demo_key)]\<rparr> demo_home) = Inr ()
   \<and> fs_after demo_home (snd (Settings_save_values
        \<lparr>settings_path = ''/home/u/opt/etc/prowl.json'',
         settings_values = PDict [(''default-api-key'', PStr demo_key)]\<rparr> demo_home))
        ''/home/u/opt/etc/prowl.json'' =
      Some (File ''{\"default-api-key\": \"0123456789abcdef0123456789abcdef01234567\"}'')"
proof -
  let ?S = "\<lparr>settings_path = ''/home/u/opt/etc/prowl.json'',
         settings_values = PDict [(''default-api-key'', PStr demo_key)]\<rparr>"
  have b: "os_path_basename (settings_path ?S) \<noteq> []"
    by code_simp
  have ok: "fst (Settings_save_values ?S demo_home) = Inr ()"
    by code_simp
  have d: "json_dumps (settings_values ?S) =
      Inr ''{\"default-api-key\": \"0123456789abcdef0123456789abcdef01234567\"}''"
    by code_simp
  have e: "encode ''{\"default-api-key\": \"0123456789abcdef0123456789abcdef01234567\"}'' =
      ''{\"default-api-key\": \"0123456789abcdef0123456789abcdef01234567\"}''"
    by code_simp
  have ne: "settings_values ?S \<noteq> PNone" by simp
  from settings_file_never_partial [OF b, of demo_home] ok ne
  obtain js t f where j: "json_dumps (settings_values ?S) = Inr js"
    and tr: "snd (Settings_save_values ?S demo_home) = t @ [f]"
    and fp: "f (settings_path ?S) = Some (File (encode js))"
    by blast
  from j d have js: "js = ''{\"default-api-key\": \"0123456789abcdef0123456789abcdef01234567\"}''"
    by (simp only: sum.inject)
  have sp: "settings_path ?S = ''/home/u/opt/etc/prowl.json''" by simp
  from fp have "f ''/home/u/opt/etc/prowl.json'' = Some (File (encode js))"
    unfolding sp .
  then have "f ''/home/u/opt/etc/prowl.json'' =
      Some (File ''{\"default-api-key\": \"0123456789abcdef0123456789abcdef01234567\"}'')"
    by (simp only: js e)
  then have "fs_after demo_home (snd (Settings_save_values ?S demo_home))
      ''/home/u/opt/etc/prowl.json'' =
      Some (File ''{\"default-api-key\": \"0123456789abcdef0123456789abcdef01234567\"}'')"
    by (simp only: tr fs_after_snoc)
  with b [unfolded sp] ok show ?thesis by blast
qed

section \<open>Serialising and parsing back\<close>

subsection \<open>UTF-8\<close>

lemma decode_encode: "decode (encode s) = Inr s"
proof (induction s)
  case Nil
  then show ?case by simp
next
  case (Cons c s)
  define n where "n = (of_char c :: nat)"
  have n: "n < 256" by (simp add: n_def)
  show ?case
  proof (cases "n < 128")
    case True
    with Cons show ?thesis by (simp add: n_def)
  next
    case False
    from n have "n div 64 < 4" by (simp add: less_mult_imp_div_less)
    moreover from False have "128 div 64 \<le> n div 64" by (intro div_le_mono) simp
    ultimately have d: "n div 64 = 2 \<or> n div 64 = 3" by auto
    have lead: "(of_char (char_of (192 + n div 64)) :: nat) = 192 + n div 64"
      using d by auto
    have cont: "(of_char (char_of (128 + n mod 64)) :: nat) = 128 + n mod 64"
      by (simp add: mod_less)
    have orig: "char_of ((192 + n div 64 - 192) * 64 + (128 + n mod 64 - 128)) = c"
      by (simp add: n_def)
    from False d show ?thesis
      using Cons lead cont orig unfolding n_def [symmetric]
      by (auto simp add: n_def [symmetric] simp del: of_char_of)
  qed
qed


subsection \<open>Strings\<close>

lemma hex_value_hex_char: "d < 16 \<Longrightarrow> hex_value (hex_char d) = Some d"
  by (auto simp: hex_value_def hex_char_def digit_char_def Let_def)

lemma decode_u00: "decode_uXXXX CHR ''0'' CHR ''0'' (hex_char (n div 16)) (hex_char (n mod 16)) =
    Some n" if "n < 256" for n :: nat
proof -
  from that have "n div 16 < 16" by simp
  then have h: "hex_value (hex_char (n div 16)) = Some (n div 16)"
    "hex_value (hex_char (n mod 16)) = Some (n mod 16)"
    by (simp_all add: hex_value_hex_char)
  have z: "hex_value CHR ''0'' = Some 0" by (simp add: hex_value_def)
  show ?thesis by (simp add: decode_uXXXX_def h z)
qed

lemma escape_step: "scanstring (json_escape_char c @ more_text) = prepend c (scanstring more_text)"
proof -
  consider (short) "c = dq \<or> c = bs \<or> c = newline \<or> c = CHR 0x0D \<or> c = CHR 0x09
      \<or> c = CHR 0x08 \<or> c = CHR 0x0C"
    | (plain) "c \<noteq> dq" "c \<noteq> bs" "c \<noteq> newline" "c \<noteq> CHR 0x0D" "c \<noteq> CHR 0x09"
        "c \<noteq> CHR 0x08" "c \<noteq> CHR 0x0C" "printable_ascii c"
    | (hex) "c \<noteq> dq" "c \<noteq> bs" "c \<noteq> newline" "c \<noteq> CHR 0x0D" "c \<noteq> CHR 0x09"
        "c \<noteq> CHR 0x08" "c \<noteq> CHR 0x0C" "\<not> printable_ascii c"
    by blast
  then show ?thesis
  proof cases
    case short
    then show ?thesis
      by (auto simp: json_escape_char_def backslash_def dq_def bs_def newline_def)
  next
    case plain
    then show ?thesis
      by (simp add: json_escape_char_def printable_ascii_def)
  next
    case hex
    have "decode_uXXXX CHR ''0'' CHR ''0'' (hex_char (of_char c div 16)) (hex_char (of_char c mod 16)) =
        Some (of_char c)"
      by (rule decode_u00) simp
    with hex show ?thesis
      by (simp add: json_escape_char_def bs_def dq_def)
  qed
qed

lemma scanstring_escaped:
  "scanstring (concat (map json_escape_char s) @ dq # rest) = Inr (s, rest)"
  by (induction s) (simp_all add: escape_step prepend_def)

lemma scanstring_json_string:
  "json_string s @ rest = dq # concat (map json_escape_char s) @ dq # rest"
  by (simp add: json_string_def)


subsection \<open>Integers\<close>

lemma digit_char_props:
  assumes "d < 10"
  shows "is_digit (digit_char d)" "digit_value (digit_char d) = d"
    "digit_char d = CHR ''0'' \<longleftrightarrow> d = 0"
proof -
  have o: "(of_char (digit_char d) :: nat) = 48 + d"
    using assms by (simp add: digit_char_def)
  show "is_digit (digit_char d)" using assms by (simp add: is_digit_def o)
  show "digit_value (digit_char d) = d" by (simp add: digit_value_def o)
  have "digit_char d = CHR ''0'' \<longleftrightarrow> (of_char (digit_char d) :: nat) = of_char CHR ''0''"
    by (simp only: of_char_eq_iff)
  then show "digit_char d = CHR ''0'' \<longleftrightarrow> d = 0" by (simp add: o)
qed

lemma digits_value_snoc: "digits_value (ds @ [c]) = 10 * digits_value ds + digit_value c"
  by (simp add: digits_value_def)

lemma nat_digits_props:
  "n < f \<Longrightarrow> nat_digits f n \<noteq> [] \<and> (\<forall>c \<in> set (nat_digits f n). is_digit c)
     \<and> digits_value (nat_digits f n) = n
     \<and> (hd (nat_digits f n) = CHR ''0'' \<longleftrightarrow> n = 0)
     \<and> (n = 0 \<longrightarrow> nat_digits f n = ''0'')"
proof (induction f arbitrary: n)
  case 0
  then show ?case by simp
next
  case (Suc f)
  show ?case
  proof (cases "n < 10")
    case True
    then show ?thesis
      using digit_char_props [of n] by (auto simp: digits_value_def digit_char_def)
  next
    case False
    with Suc.prems have lt: "n div 10 < f" "0 < n div 10" by auto
    note ih = Suc.IH [OF lt(1)]
    from ih have ne: "nat_digits f (n div 10) \<noteq> []" by simp
    have "n mod 10 < 10" by simp
    note dc = digit_char_props [OF this]
    from False ih dc lt(2) show ?thesis
      by (simp add: digits_value_snoc ne)
  qed
qed

lemma str_nat_props:
  "str_nat n \<noteq> []" "\<forall>c \<in> set (str_nat n). is_digit c" "digits_value (str_nat n) = n"
  "hd (str_nat n) = CHR ''0'' \<longleftrightarrow> n = 0" "str_nat 0 = ''0''"
  using nat_digits_props [of n "Suc n"] nat_digits_props [of 0 "Suc 0"]
  by (simp_all add: str_nat_def)

lemma takeWhile_prefix:
  "\<forall>x \<in> set xs. P x \<Longrightarrow> ys = [] \<or> \<not> P (hd ys) \<Longrightarrow>
     takeWhile P (xs @ ys) = xs \<and> dropWhile P (xs @ ys) = ys"
  by (induction xs) (auto simp: takeWhile_eq_Nil_iff dropWhile_eq_self_iff)

lemma follows_value_number:
  "follows_value rest \<Longrightarrow> \<not> has_frac_or_exp rest \<and> (rest = [] \<or> \<not> is_digit (hd rest))"
  by (cases rest) (auto simp: follows_value_def has_frac_or_exp_def is_digit_def)

lemma match_integer_str_nat:
  assumes "rest = [] \<or> \<not> is_digit (hd rest)"
  shows "match_integer (str_nat n @ rest) = Some (str_nat n, rest)"
proof (cases "n = 0")
  case True
  then show ?thesis by (simp add: str_nat_props(5) match_integer_def)
next
  case False
  obtain c cs where ds: "str_nat n = c # cs"
    using str_nat_props(1) [of n] by (cases "str_nat n") auto
  with False have c: "c \<noteq> CHR ''0''" "is_digit c" "\<forall>x \<in> set cs. is_digit x"
    using str_nat_props(2,4) [of n] by auto
  from takeWhile_prefix [OF c(3) assms] c(1,2) show ?thesis
    by (simp add: ds match_integer_def)
qed

lemma str_int_first:
  "\<exists>c cs. str_int i = c # cs \<and> (c = CHR ''-'' \<or> is_digit c)"
proof (cases "i < 0")
  case True
  then show ?thesis by (simp add: str_int_def)
next
  case False
  obtain c cs where "str_nat (nat i) = c # cs"
    using str_nat_props(1) [of "nat i"] by (cases "str_nat (nat i)") auto
  with False show ?thesis using str_nat_props(2) [of "nat i"] by (auto simp: str_int_def)
qed

lemma match_number_str_int:
  assumes "follows_value rest"
  shows "match_number (str_int i @ rest) = Some (Inr (PInt i, rest))"
proof -
  note f = follows_value_number [OF assms]
  show ?thesis
  proof (cases "i < 0")
    case True
    then show ?thesis
      using match_integer_str_nat [of rest "nat (- i)"] f str_nat_props(3) [of "nat (- i)"]
      by (simp add: match_number_def str_int_def)
  next
    case False
    obtain c cs where ds: "str_nat (nat i) = c # cs"
      using str_nat_props(1) [of "nat i"] by (cases "str_nat (nat i)") auto
    then have "is_digit c" using str_nat_props(2) [of "nat i"] by auto
    then have "c \<noteq> CHR ''-''" by (auto simp: is_digit_def)
    with False ds show ?thesis
      using match_integer_str_nat [of rest "nat i"] f str_nat_props(3) [of "nat i"]
      by (simp add: match_number_def str_int_def)
  qed
qed

subsection \<open>Values\<close>

lemma is_digit_value_start: "is_digit c \<Longrightarrow> value_start c"
  by (simp add: value_start_def)

lemma value_start_facts:
  assumes "value_start c"
  shows "\<not> is_ws c" "c \<noteq> CHR '']''" "c \<noteq> CHR ''}''" "c \<noteq> CHR '',''" "c \<noteq> CHR '':''"
  using assms by (auto simp: value_start_def is_ws_def is_digit_def dq_def newline_def)

lemma skip_ws_start: "\<not> is_ws c \<Longrightarrow> skip_ws (c # cs) = c # cs"
  by (simp add: skip_ws_def)

lemma skip_ws_space: "skip_ws (CHR '' '' # cs) = skip_ws cs"
  by (simp add: skip_ws_def is_ws_def)

lemma json_string_start: "json_string s = dq # concat (map json_escape_char s) @ [dq]"
  by (simp add: json_string_def)

lemma json_dumps_start:
  assumes "json_dumps v = Inr js"
  shows "\<exists>c cs. js = c # cs \<and> value_start c"
proof (cases v)
  case (PInt i)
  with assms str_int_first [of i] show ?thesis
    by (auto simp: value_start_def)
next
  case (PStr s)
  with assms have "js = dq # concat (map json_escape_char s) @ [dq]"
    by (simp add: json_string_start)
  then show ?thesis by (simp add: value_start_def)
qed (use assms in \<open>auto simp: value_start_def split: sum.splits if_splits\<close>)

lemma scan_once_null:
  "scan_once (Suc n) (''null'' @ rest) = Inr (PNone, rest)"
  by (simp add: starts_with_def dq_def)

lemma scan_once_true:
  "scan_once (Suc n) (''true'' @ rest) = Inr (PBool True, rest)"
  by (simp add: starts_with_def dq_def)

lemma scan_once_false:
  "scan_once (Suc n) (''false'' @ rest) = Inr (PBool False, rest)"
  by (simp add: starts_with_def dq_def)

lemma scan_once_string:
  "scan_once (Suc n) (json_string s @ rest) = Inr (PStr s, rest)"
  by (simp add: json_string_start scanstring_escaped)

lemma scan_once_int:
  assumes "follows_value rest"
  shows "scan_once (Suc n) (str_int i @ rest) = Inr (PInt i, rest)"
proof -
  obtain c cs where s: "str_int i = c # cs" and c: "c = CHR ''-'' \<or> is_digit c"
    using str_int_first [of i] by blast
  from c have ne: "c \<noteq> dq" "c \<noteq> CHR ''{''" "c \<noteq> CHR ''[''" "c \<noteq> CHR ''n''" "c \<noteq> CHR ''t''"
    "c \<noteq> CHR ''f''"
    by (auto simp: is_digit_def dq_def)
  have "scan_once (Suc n) (c # cs @ rest) =
      (case match_number (c # cs @ rest) of Some r \<Rightarrow> r
       | None \<Rightarrow> if starts_with ''NaN'' (c # cs @ rest) \<or> starts_with ''Infinity'' (c # cs @ rest)
                     \<or> starts_with ''-Infinity'' (c # cs @ rest)
                  then Inl Not_modelled else Inl Decode_error)"
    using ne by (simp add: starts_with_def)
  then show ?thesis
    using match_number_str_int [OF assms, of i] by (simp add: s)
qed


subsection \<open>More fuel does not change a result\<close>

lemma fuel_mono:
  "(scan_once n s = Inr r \<longrightarrow> scan_once (n + k) s = Inr r)
   \<and> (array_items n acc s' = Inr r \<longrightarrow> array_items (n + k) acc s' = Inr r)
   \<and> (object_items n kvs s'' = Inr r \<longrightarrow> object_items (n + k) kvs s'' = Inr r)"
proof (induction n arbitrary: s s' s'' r acc kvs)
  case 0
  show ?case by simp
next
  case (Suc n)
  have ih1: "scan_once (n + k) x = Inr y" if "scan_once n x = Inr y" for x y
    using Suc.IH [of x y] that by blast
  have ih2: "array_items (n + k) a x = Inr y" if "array_items n a x = Inr y" for a x y
    using Suc.IH [of _ y a x] that by blast
  have ih3: "object_items (n + k) a x = Inr y" if "object_items n a x = Inr y" for a x y
    using Suc.IH [of _ y _ _ a x] that by blast
  have 1: "scan_once (Suc n + k) s = Inr r" if h: "scan_once (Suc n) s = Inr r"
  proof (cases s)
    case Nil
    with h show ?thesis by simp
  next
    case (Cons c cs)
    consider (str) "c = dq" | (obj) "c \<noteq> dq" "c = CHR ''{''"
      | (arr) "c \<noteq> dq" "c \<noteq> CHR ''{''" "c = CHR ''[''"
      | (other) "c \<noteq> dq" "c \<noteq> CHR ''{''" "c \<noteq> CHR ''[''"
      by blast
    then show ?thesis
    proof cases
      case str
      with h Cons show ?thesis by simp
    next
      case obj
      show ?thesis
      proof (cases "skip_ws cs")
        case Nil
        with h Cons obj show ?thesis by simp
      next
        case (Cons d ds)
        with h \<open>s = c # cs\<close> obj show ?thesis
          by (cases "d = CHR ''}''"; cases "d = dq") (simp_all add: ih3)
      qed
    next
      case arr
      show ?thesis
      proof (cases "skip_ws cs")
        case Nil
        with h Cons arr show ?thesis by simp
      next
        case (Cons d ds)
        with h \<open>s = c # cs\<close> arr show ?thesis
          by (cases "d = CHR '']''") (simp_all add: ih2)
      qed
    next
      case other
      with h Cons show ?thesis by simp
    qed
  qed
  have 2: "array_items (Suc n + k) acc s' = Inr r" if h: "array_items (Suc n) acc s' = Inr r"
  proof -
    from h obtain v rest where v: "scan_once n s' = Inr (v, rest)"
      by (cases "scan_once n s'") auto
    note v' = ih1 [OF v]
    show ?thesis
    proof (cases "skip_ws rest")
      case Nil
      with h v show ?thesis by simp
    next
      case (Cons d ds)
      with h v show ?thesis
        by (cases "d = CHR '']''"; cases "d = CHR '',''") (simp_all add: v' ih2)
    qed
  qed
  have 3: "object_items (Suc n + k) kvs s'' = Inr r" if h: "object_items (Suc n) kvs s'' = Inr r"
  proof -
    from h obtain key rest where key: "scanstring s'' = Inr (key, rest)"
      by (cases "scanstring s''") auto
    from h key obtain c cs where cs: "skip_ws rest = c # cs"
      by (cases "skip_ws rest") auto
    from h key cs have c: "c = CHR '':''"
      by (cases "c = CHR '':''") auto
    from h key cs c obtain v rest' where v: "scan_once n (skip_ws cs) = Inr (v, rest')"
      by (cases "scan_once n (skip_ws cs)") auto
    note v' = ih1 [OF v]
    show ?thesis
    proof (cases "skip_ws rest'")
      case Nil
      with h key cs c v show ?thesis by simp
    next
      case (Cons d ds)
      show ?thesis
      proof (cases "d = CHR ''}''")
        case True
        with h key cs c v Cons show ?thesis by (simp add: v')
      next
        case False
        show ?thesis
        proof (cases "d = CHR '',''")
          case no: False
          with h key cs c v Cons False show ?thesis by simp
        next
          case True
          show ?thesis
          proof (cases "skip_ws ds")
            case Nil
            with h key cs c v \<open>skip_ws rest' = d # ds\<close> False True show ?thesis by simp
          next
            case (Cons q qs)
            with h key cs c v \<open>skip_ws rest' = d # ds\<close> False True show ?thesis
              by (cases "q = dq") (simp_all add: v' ih3)
          qed
        qed
      qed
    qed
  qed
  from 1 2 3 show ?case by blast
qed

lemma scan_once_more: "scan_once n s = Inr r \<Longrightarrow> n \<le> m \<Longrightarrow> scan_once m s = Inr r"
  using fuel_mono [where n = n and s = s and r = r and k = "m - n"] by simp

lemma array_items_more:
  "array_items n acc s = Inr r \<Longrightarrow> n \<le> m \<Longrightarrow> array_items m acc s = Inr r"
  using fuel_mono [where n = n and s' = s and acc = acc and r = r and k = "m - n"] by simp

lemma object_items_more:
  "object_items n kvs s = Inr r \<Longrightarrow> n \<le> m \<Longrightarrow> object_items m kvs s = Inr r"
  using fuel_mono [where n = n and s'' = s and kvs = kvs and r = r and k = "m - n"] by simp

subsection \<open>Lists and dictionaries\<close>

lemma not_ws:
  "\<not> is_ws CHR '',''" "\<not> is_ws CHR '':''" "\<not> is_ws CHR '']''" "\<not> is_ws CHR ''}''" "\<not> is_ws dq"
  by (simp_all add: is_ws_def dq_def newline_def)

lemma follows_value_simps:
  "follows_value (CHR '','' # s)" "follows_value (CHR '']'' # s)" "follows_value (CHR ''}'' # s)"
  "follows_value []"
  by (simp_all add: follows_value_def)

lemma array_items_step:
  "scan_once n s = Inr (v, rest) \<Longrightarrow> skip_ws rest = d # ds \<Longrightarrow>
     array_items (Suc n) acc s =
       (if d = CHR '']'' then Inr (PList (acc @ [v]), ds)
        else if d = CHR '','' then array_items n (acc @ [v]) (skip_ws ds)
        else Inl Decode_error)"
  by simp

lemma object_items_step:
  "scanstring s = Inr (k, rest) \<Longrightarrow> skip_ws rest = CHR '':'' # cs \<Longrightarrow>
   scan_once n (skip_ws cs) = Inr (v, rest') \<Longrightarrow> skip_ws rest' = d # ds \<Longrightarrow>
     object_items (Suc n) acc s =
       (if d = CHR ''}'' then Inr (PDict (dict_set acc k v), ds)
        else if d = CHR '','' then
          (case skip_ws ds of
             [] \<Rightarrow> Inl Decode_error
           | q # qs \<Rightarrow> if q = dq then object_items n (dict_set acc k v) qs else Inl Decode_error)
        else Inl Decode_error)"
  by simp

lemma scan_once_array:
  "value_start c \<Longrightarrow> scan_once (Suc n) (CHR ''['' # c # cs) = array_items n [] (c # cs)"
  using value_start_facts [of c] by (simp add: skip_ws_start dq_def)

lemma dq_neq: "dq \<noteq> CHR ''{''" "dq \<noteq> CHR ''}''" "dq \<noteq> CHR ''[''" "dq \<noteq> CHR '']''"
  by (simp_all add: dq_def)

lemma scan_once_object:
  "scan_once (Suc n) (CHR ''{'' # dq # cs) = object_items n [] cs"
proof -
  have "skip_ws (dq # cs) = dq # cs" by (simp add: skip_ws_start not_ws)
  then show ?thesis using dq_neq by (simp add: dq_neq [symmetric])
qed

lemma scan_once_empty_array: "scan_once (Suc n) (''[]'' @ rest) = Inr (PList [], rest)"
  by (simp add: skip_ws_start not_ws dq_def)

lemma scan_once_empty_object: "scan_once (Suc n) (''{}'' @ rest) = Inr (PDict [], rest)"
  by (simp add: skip_ws_start not_ws dq_def)

declare scan_once.simps [simp del] array_items.simps [simp del] object_items.simps [simp del]

text \<open>
  The property of one value that the induction carries: it is serialised, and the text
  is read back, with fuel of the text's length, in front of anything that can follow.
\<close>

lemma array_items_dumps:
  assumes "xs \<noteq> []"
    and "\<forall>x \<in> set xs. \<exists>js. json_dumps x = Inr js \<and>
           (\<forall>rest. follows_value rest \<longrightarrow> scan_once (length js) (js @ rest) = Inr (x, rest))"
  shows "\<exists>t. dumps_items xs = Inr t
           \<and> (\<forall>acc rest. array_items (Suc (length t)) acc (t @ CHR '']'' # rest) =
                  Inr (PList (acc @ xs), rest))
           \<and> (\<exists>c cs. t = c # cs \<and> value_start c)"
  using assms
proof (induction xs rule: list_nonempty_induct)
  case (single x)
  then obtain js where js: "json_dumps x = Inr js"
    and rd: "\<And>rest. follows_value rest \<Longrightarrow> scan_once (length js) (js @ rest) = Inr (x, rest)"
    by auto
  have "array_items (Suc (length js)) acc (js @ CHR '']'' # rest) = Inr (PList (acc @ [x]), rest)"
    for acc rest
    using rd [of "CHR '']'' # rest"]
    by (simp add: follows_value_simps skip_ws_start not_ws array_items_step)
  with js json_dumps_start [OF js] show ?case by simp
next
  case (cons x xs)
  from cons.prems obtain js where js: "json_dumps x = Inr js"
    and rd: "\<And>rest. follows_value rest \<Longrightarrow> scan_once (length js) (js @ rest) = Inr (x, rest)"
    by auto
  from cons.IH cons.prems obtain ts c cs where ts: "dumps_items xs = Inr ts"
    and it: "\<And>acc rest. array_items (Suc (length ts)) acc (ts @ CHR '']'' # rest) =
        Inr (PList (acc @ xs), rest)"
    and st: "ts = c # cs" "value_start c"
    by auto
  let ?t = "js @ '', '' @ ts"
  have "array_items (Suc (length ?t)) acc (?t @ CHR '']'' # rest) = Inr (PList (acc @ x # xs), rest)"
    for acc rest
  proof -
    let ?r = "CHR '','' # CHR '' '' # ts @ CHR '']'' # rest"
    have "scan_once (length js) (js @ ?r) = Inr (x, ?r)"
      by (rule rd) (simp add: follows_value_simps)
    then have 1: "scan_once (length ?t) (js @ ?r) = Inr (x, ?r)"
      by (rule scan_once_more) simp
    have 2: "skip_ws (CHR '' '' # ts @ CHR '']'' # rest) = ts @ CHR '']'' # rest"
      using st value_start_facts(1) [OF st(2)] by (simp add: skip_ws_space skip_ws_start)
    have "array_items (Suc (length ts)) (acc @ [x]) (ts @ CHR '']'' # rest) =
        Inr (PList ((acc @ [x]) @ xs), rest)"
      by (rule it)
    then have 3: "array_items (length ?t) (acc @ [x]) (ts @ CHR '']'' # rest) =
        Inr (PList (acc @ x # xs), rest)"
      using array_items_more [of "Suc (length ts)" "acc @ [x]" "ts @ CHR '']'' # rest" _ "length ?t"]
      by simp
    have "skip_ws ?r = ?r" by (simp add: skip_ws_start not_ws)
    from array_items_step [OF 1 this, of acc]
    have "array_items (Suc (length ?t)) acc (js @ ?r) = Inr (PList (acc @ x # xs), rest)"
      using 3 by (simp add: 2)
    then show ?thesis by simp
  qed
  moreover have "dumps_items (x # xs) = Inr ?t"
    using js ts cons.hyps by simp
  moreover have "\<exists>c cs. ?t = c # cs \<and> value_start c"
    using json_dumps_start [OF js] by auto
  ultimately show ?case by blast
qed


lemma object_items_dumps:
  assumes "kvs \<noteq> []"
    and "\<forall>kv \<in> set kvs. \<exists>js. json_dumps (snd kv) = Inr js \<and>
           (\<forall>rest. follows_value rest \<longrightarrow> scan_once (length js) (js @ rest) = Inr (snd kv, rest))"
  shows "\<exists>t. dumps_pairs kvs = Inr (dq # t)
           \<and> (\<forall>acc rest. object_items (Suc (Suc (length t))) acc (t @ CHR ''}'' # rest) =
                  Inr (PDict (foldl (\<lambda>d (k, v). dict_set d k v) acc kvs), rest))"
  using assms
proof (induction kvs rule: list_nonempty_induct)
  case (single kv)
  obtain k v where kv: "kv = (k, v)" by (cases kv)
  with single obtain js where js: "json_dumps v = Inr js"
    and rd: "\<And>rest. follows_value rest \<Longrightarrow> scan_once (length js) (js @ rest) = Inr (v, rest)"
    by auto
  obtain c cs where st: "js = c # cs" "value_start c"
    using json_dumps_start [OF js] by blast
  let ?k = "concat (map json_escape_char k)"
  let ?t = "?k @ dq # '': '' @ js"
  have "object_items (Suc (Suc (length ?t))) acc (?t @ CHR ''}'' # rest) =
      Inr (PDict (dict_set acc k v), rest)" for acc rest
  proof -
    let ?r = "CHR '':'' # CHR '' '' # js @ CHR ''}'' # rest"
    have 1: "scanstring (?k @ dq # ?r) = Inr (k, ?r)" by (rule scanstring_escaped)
    have 2: "skip_ws ?r = CHR '':'' # CHR '' '' # js @ CHR ''}'' # rest"
      by (simp add: skip_ws_start not_ws)
    have 3: "skip_ws (CHR '' '' # js @ CHR ''}'' # rest) = js @ CHR ''}'' # rest"
      using st value_start_facts(1) [OF st(2)] by (simp add: skip_ws_space skip_ws_start)
    have "scan_once (length js) (js @ CHR ''}'' # rest) = Inr (v, CHR ''}'' # rest)"
      by (rule rd) (simp add: follows_value_simps)
    then have 4: "scan_once (Suc (length ?t)) (skip_ws (CHR '' '' # js @ CHR ''}'' # rest)) =
        Inr (v, CHR ''}'' # rest)"
      unfolding 3 by (rule scan_once_more) simp
    have 5: "skip_ws (CHR ''}'' # rest) = CHR ''}'' # rest" by (simp add: skip_ws_start not_ws)
    from object_items_step [OF 1 2 4 5, of acc] show ?thesis by simp
  qed
  moreover have "dumps_pairs [kv] = Inr (dq # ?t)"
    using js kv by (simp add: json_string_start)
  ultimately show ?case using kv by auto
next
  case (cons kv kvs)
  obtain k v where kv: "kv = (k, v)" by (cases kv)
  with cons.prems obtain js where js: "json_dumps v = Inr js"
    and rd: "\<And>rest. follows_value rest \<Longrightarrow> scan_once (length js) (js @ rest) = Inr (v, rest)"
    by auto
  obtain c cs where st: "js = c # cs" "value_start c"
    using json_dumps_start [OF js] by blast
  from cons.IH cons.prems obtain ts where ts: "dumps_pairs kvs = Inr (dq # ts)"
    and it: "\<And>acc rest. object_items (Suc (Suc (length ts))) acc (ts @ CHR ''}'' # rest) =
        Inr (PDict (foldl (\<lambda>d (k, v). dict_set d k v) acc kvs), rest)"
    by auto
  let ?k = "concat (map json_escape_char k)"
  let ?t = "?k @ dq # '': '' @ js @ '', '' @ dq # ts"
  have "object_items (Suc (Suc (length ?t))) acc (?t @ CHR ''}'' # rest) =
      Inr (PDict (foldl (\<lambda>d (k, v). dict_set d k v) (dict_set acc k v) kvs), rest)" for acc rest
  proof -
    let ?r2 = "CHR '','' # CHR '' '' # dq # ts @ CHR ''}'' # rest"
    let ?r = "CHR '':'' # CHR '' '' # js @ ?r2"
    have 1: "scanstring (?k @ dq # ?r) = Inr (k, ?r)" by (rule scanstring_escaped)
    have 2: "skip_ws ?r = CHR '':'' # CHR '' '' # js @ ?r2"
      by (simp add: skip_ws_start not_ws)
    have 3: "skip_ws (CHR '' '' # js @ ?r2) = js @ ?r2"
      using st value_start_facts(1) [OF st(2)] by (simp add: skip_ws_space skip_ws_start)
    have "scan_once (length js) (js @ ?r2) = Inr (v, ?r2)"
      by (rule rd) (simp add: follows_value_simps)
    then have 4: "scan_once (Suc (length ?t)) (skip_ws (CHR '' '' # js @ ?r2)) = Inr (v, ?r2)"
      unfolding 3 by (rule scan_once_more) simp
    have 5: "skip_ws ?r2 = CHR '','' # CHR '' '' # dq # ts @ CHR ''}'' # rest"
      by (simp add: skip_ws_start not_ws)
    have 6: "skip_ws (CHR '' '' # dq # ts @ CHR ''}'' # rest) = dq # ts @ CHR ''}'' # rest"
      by (simp add: skip_ws_space skip_ws_start not_ws)
    have "object_items (Suc (Suc (length ts))) (dict_set acc k v) (ts @ CHR ''}'' # rest) =
        Inr (PDict (foldl (\<lambda>d (k, v). dict_set d k v) (dict_set acc k v) kvs), rest)"
      by (rule it)
    then have 7: "object_items (Suc (length ?t)) (dict_set acc k v) (ts @ CHR ''}'' # rest) =
        Inr (PDict (foldl (\<lambda>d (k, v). dict_set d k v) (dict_set acc k v) kvs), rest)"
      by (rule object_items_more) simp
    from object_items_step [OF 1 2 4 5, of acc] 6 7 show ?thesis by simp
  qed
  moreover have "dumps_pairs (kv # kvs) = Inr (dq # ?t)"
    using js ts kv cons.hyps by (simp add: json_string_start)
  ultimately show ?case using kv by auto
qed

subsection \<open>Every JSON-compatible value is read back\<close>

lemma json_dumps_read_back:
  "json_compatible v \<Longrightarrow>
     \<exists>js. json_dumps v = Inr js \<and>
       (\<forall>rest. follows_value rest \<longrightarrow> scan_once (length js) (js @ rest) = Inr (v, rest))"
proof (induction v)
  case PNone
  have "scan_once (length ''null'') (''null'' @ rest) = Inr (PNone, rest)" for rest
  proof -
    have "length ''null'' = Suc 3" by simp
    then show ?thesis by (simp only: scan_once_null)
  qed
  then show ?case by simp
next
  case (PBool b)
  have "scan_once (length ''true'') (''true'' @ rest) = Inr (PBool True, rest)" for rest
  proof -
    have "length ''true'' = Suc 3" by simp
    then show ?thesis by (simp only: scan_once_true)
  qed
  moreover have "scan_once (length ''false'') (''false'' @ rest) = Inr (PBool False, rest)" for rest
  proof -
    have "length ''false'' = Suc 4" by simp
    then show ?thesis by (simp only: scan_once_false)
  qed
  ultimately show ?case by simp
next
  case (PInt i)
  obtain c cs where "str_int i = c # cs" using str_int_first [of i] by blast
  then have "length (str_int i) = Suc (length cs)" by simp
  then show ?case using scan_once_int [of _ "length cs" i] by simp
next
  case (PStr s)
  have "length (json_string s) = Suc (Suc (length (concat (map json_escape_char s))))"
    by (simp add: json_string_def)
  then show ?case using scan_once_string [of _ s] by simp
next
  case (PBytes s)
  then show ?case by simp
next
  case (PList xs)
  show ?case
  proof (cases "xs = []")
    case True
    have "scan_once (length ''[]'') (''[]'' @ rest) = Inr (PList [], rest)" for rest
    proof -
      have "length ''[]'' = Suc 1" by simp
      then show ?thesis by (simp only: scan_once_empty_array)
    qed
    with True show ?thesis by simp
  next
    case False
    have "\<forall>x \<in> set xs. \<exists>js. json_dumps x = Inr js \<and>
        (\<forall>rest. follows_value rest \<longrightarrow> scan_once (length js) (js @ rest) = Inr (x, rest))"
      using PList by simp
    from array_items_dumps [OF False this] obtain t c cs where t: "dumps_items xs = Inr t"
      and it: "\<And>acc rest. array_items (Suc (length t)) acc (t @ CHR '']'' # rest) =
          Inr (PList (acc @ xs), rest)"
      and st: "t = c # cs" "value_start c"
      by blast
    have "scan_once (length (''['' @ t @ '']'')) ((''['' @ t @ '']'') @ rest) = Inr (PList xs, rest)"
      for rest
      using scan_once_array [OF st(2), of "Suc (length t)" "cs @ CHR '']'' # rest"] it [of "[]" rest]
      by (simp add: st)
    with t show ?thesis by simp
  qed
next
  case (PDict kvs)
  show ?case
  proof (cases "kvs = []")
    case True
    have "scan_once (length ''{}'') (''{}'' @ rest) = Inr (PDict [], rest)" for rest
    proof -
      have "length ''{}'' = Suc 1" by simp
      then show ?thesis by (simp only: scan_once_empty_object)
    qed
    with True show ?thesis by simp
  next
    case False
    have "\<forall>kv \<in> set kvs. \<exists>js. json_dumps (snd kv) = Inr js \<and>
        (\<forall>rest. follows_value rest \<longrightarrow> scan_once (length js) (js @ rest) = Inr (snd kv, rest))"
    proof
      fix kv assume kv: "kv \<in> set kvs"
      obtain k v where "kv = (k, v)" by (cases kv)
      with kv PDict.IH [of kv v] PDict.prems show "\<exists>js. json_dumps (snd kv) = Inr js \<and>
          (\<forall>rest. follows_value rest \<longrightarrow> scan_once (length js) (js @ rest) = Inr (snd kv, rest))"
        by auto
    qed
    from object_items_dumps [OF False this] obtain t where t: "dumps_pairs kvs = Inr (dq # t)"
      and it: "\<And>acc rest. object_items (Suc (Suc (length t))) acc (t @ CHR ''}'' # rest) =
          Inr (PDict (foldl (\<lambda>d (k, v). dict_set d k v) acc kvs), rest)"
      by blast
    have "foldl (\<lambda>d (k, v). dict_set d k v) [] kvs = kvs"
      using foldl_dict_set_distinct [of "[]" kvs] PDict.prems by simp
    then have "scan_once (length (''{'' @ (dq # t) @ ''}'')) ((''{'' @ (dq # t) @ ''}'') @ rest) =
        Inr (PDict kvs, rest)" for rest
      using scan_once_object [of "Suc (Suc (length t))" "t @ CHR ''}'' # rest"] it [of "[]" rest]
      by simp
    with t show ?thesis by simp
  qed
qed

text \<open>\<open>json.loads(json.dumps(v)) == v\<close> for every JSON-compatible value of the model.\<close>

lemma json_loads_dumps:
  assumes "json_compatible v"
  shows "\<exists>js. json_dumps v = Inr js \<and> json_loads js = Inr v"
proof -
  from json_dumps_read_back [OF assms] obtain js where js: "json_dumps v = Inr js"
    and every: "\<forall>rest. follows_value rest \<longrightarrow> scan_once (length js) (js @ rest) = Inr (v, rest)"
    by blast
  from every [rule_format, of "[]"] have rd: "scan_once (length js) js = Inr (v, [])"
    by (simp add: follows_value_simps)
  obtain c cs where st: "js = c # cs" "value_start c"
    using json_dumps_start [OF js] by blast
  then have "skip_ws js = js" using value_start_facts(1) [OF st(2)] by (simp add: skip_ws_start)
  moreover from rd have "scan_once (Suc (length js)) js = Inr (v, [])"
    using scan_once_more [of "length js" js "(v, [])" "Suc (length js)"] by simp
  ultimately have "json_loads js = Inr v"
    by (simp add: json_loads_def skip_ws_def)
  with js show ?thesis by blast
qed

subsection \<open>What the parser returns is JSON-compatible\<close>

lemma dict_set_compatible:
  assumes "json_compatible (PDict d)" and "json_compatible v"
  shows "json_compatible (PDict (dict_set d k v))"
proof -
  have "\<forall>kv \<in> set (AList.update k v d). json_compatible (snd kv)"
    using assms by (induction d) auto
  moreover have "distinct (map fst (AList.update k v d))"
    using assms by (simp add: distinct_update)
  ultimately show ?thesis by (simp add: dict_set_def)
qed

lemma dict_get_set: "dict_get (dict_set d k v) k dflt = v"
  by (simp add: dict_get_def dict_set_def update_conv')

lemma match_number_value:
  "match_number s = Some (Inr (v, r)) \<Longrightarrow> json_compatible v"
  by (auto simp: match_number_def Let_def split: option.splits if_splits prod.splits)

lemma parsed_compatible:
  "(scan_once n s = Inr (v, r) \<longrightarrow> json_compatible v)
   \<and> (array_items n acc s' = Inr (v, r) \<longrightarrow> (\<forall>x \<in> set acc. json_compatible x) \<longrightarrow>
        json_compatible v)
   \<and> (object_items n kvs s'' = Inr (v, r) \<longrightarrow> json_compatible (PDict kvs) \<longrightarrow>
        json_compatible v)"
proof (induction n arbitrary: s s' s'' v r acc kvs)
  case 0
  show ?case by (simp add: scan_once.simps array_items.simps object_items.simps)
next
  case (Suc n)
  have ih1: "json_compatible y" if "scan_once n x = Inr (y, z)" for x y z
    using Suc.IH [of x y z] that by blast
  have ih2: "json_compatible y" if "array_items n a x = Inr (y, z)" "\<forall>x \<in> set a. json_compatible x"
    for a x y z
    using Suc.IH [of _ y z a x] that by blast
  have ih3: "json_compatible y" if "object_items n a x = Inr (y, z)" "json_compatible (PDict a)"
    for a x y z
    using Suc.IH [of _ y z _ _ a x] that by blast
  have 1: "json_compatible v" if h: "scan_once (Suc n) s = Inr (v, r)"
  proof (cases s)
    case Nil
    with h show ?thesis by (simp add: scan_once.simps)
  next
    case (Cons c cs)
    consider (str) "c = dq" | (obj) "c \<noteq> dq" "c = CHR ''{''"
      | (arr) "c \<noteq> dq" "c \<noteq> CHR ''{''" "c = CHR ''[''"
      | (other) "c \<noteq> dq" "c \<noteq> CHR ''{''" "c \<noteq> CHR ''[''"
      by blast
    then show ?thesis
    proof cases
      case str
      with h Cons show ?thesis
        by (auto simp: scan_once.simps split: sum.splits)
    next
      case obj
      show ?thesis
      proof (cases "skip_ws cs")
        case Nil
        with h Cons obj show ?thesis by (simp add: scan_once.simps)
      next
        case (Cons d ds)
        with h \<open>s = c # cs\<close> obj show ?thesis
          using ih3 [of "[]" ds v r]
          by (cases "d = CHR ''}''"; cases "d = dq") (auto simp: scan_once.simps)
      qed
    next
      case arr
      show ?thesis
      proof (cases "skip_ws cs")
        case Nil
        with h Cons arr show ?thesis by (simp add: scan_once.simps)
      next
        case (Cons d ds)
        with h \<open>s = c # cs\<close> arr show ?thesis
          using ih2 [of "[]" "d # ds" v r]
          by (cases "d = CHR '']''") (auto simp: scan_once.simps)
      qed
    next
      case other
      with h Cons show ?thesis
        using match_number_value [of s v r]
        by (auto simp: scan_once.simps split: if_splits option.splits)
    qed
  qed
  have 2: "json_compatible v"
    if h: "array_items (Suc n) acc s' = Inr (v, r)" and a: "\<forall>x \<in> set acc. json_compatible x"
  proof -
    from h obtain x rest where x: "scan_once n s' = Inr (x, rest)"
      by (cases "scan_once n s'") (auto simp: array_items.simps)
    note cx = ih1 [OF x]
    show ?thesis
    proof (cases "skip_ws rest")
      case Nil
      with h x show ?thesis by (simp add: array_items.simps)
    next
      case (Cons d ds)
      with h x a cx show ?thesis
        using ih2 [of "acc @ [x]" "skip_ws ds" v r]
        by (cases "d = CHR '']''"; cases "d = CHR '',''") (auto simp: array_items.simps)
    qed
  qed
  have 3: "json_compatible v"
    if h: "object_items (Suc n) kvs s'' = Inr (v, r)" and a: "json_compatible (PDict kvs)"
  proof -
    from h obtain key rest where key: "scanstring s'' = Inr (key, rest)"
      by (cases "scanstring s''") (auto simp: object_items.simps)
    from h key obtain c cs where cs: "skip_ws rest = c # cs"
      by (cases "skip_ws rest") (auto simp: object_items.simps)
    from h key cs have c: "c = CHR '':''"
      by (cases "c = CHR '':''") (auto simp: object_items.simps)
    from h key cs c obtain x rest' where x: "scan_once n (skip_ws cs) = Inr (x, rest')"
      by (cases "scan_once n (skip_ws cs)") (auto simp: object_items.simps)
    note cx = dict_set_compatible [OF a ih1 [OF x], of key]
    show ?thesis
    proof (cases "skip_ws rest'")
      case Nil
      with h key cs c x show ?thesis by (simp add: object_items.simps)
    next
      case (Cons d ds)
      show ?thesis
      proof (cases "d = CHR ''}''")
        case True
        with h key cs c x Cons cx show ?thesis by (auto simp: object_items.simps)
      next
        case False
        show ?thesis
        proof (cases "d = CHR '',''")
          case no: False
          with h key cs c x Cons False show ?thesis by (simp add: object_items.simps)
        next
          case True
          show ?thesis
          proof (cases "skip_ws ds")
            case Nil
            with h key cs c x \<open>skip_ws rest' = d # ds\<close> False True show ?thesis
              by (simp add: object_items.simps)
          next
            case (Cons q qs)
            with h key cs c x \<open>skip_ws rest' = d # ds\<close> False True cx show ?thesis
              using ih3 [of "dict_set kvs key x" qs v r]
              by (cases "q = dq") (auto simp: object_items.simps)
          qed
        qed
      qed
    qed
  qed
  from 1 2 3 show ?case by blast
qed

lemma json_loads_compatible: "json_loads s = Inr v \<Longrightarrow> json_compatible v"
  using parsed_compatible [of "Suc (length s)" "skip_ws s" v]
  by (auto simp: json_loads_def split: sum.splits fail.splits if_splits)

section \<open>The settings store\<close>

lemma write_file_final:
  assumes "write_file fs path data = (Inr (), t)"
  shows "fs_after fs t path = Some (File data) \<and> path \<noteq> []"
proof -
  define dir where "dir = os_path_dirname path"
  define temp where "temp = path @ ''~''"
  obtain r t0 where rt: "(if \<not> os_path_exists fs dir then os_makedirs (Suc (length dir)) fs dir
      else (Inr (), [])) = (r, t0)"
    by (cases "if \<not> os_path_exists fs dir then os_makedirs (Suc (length dir)) fs dir else (Inr (), [])")
  have wf: "write_file fs path data =
      (case r of
         Inl e \<Rightarrow> (Inl e, t0)
       | Inr _ \<Rightarrow>
          (case open_wb (fs_after fs t0) temp of
             Inl e \<Rightarrow> (Inl e, t0)
           | Inr fs1 \<Rightarrow>
               (let written = map (\<lambda>n. fs1(temp \<mapsto> File (take n data))) [1..<Suc (length data)];
                    t1 = t0 @ [fs1] @ written
                in
                case os_rename (fs_after fs t1) temp path of
                  Inl e \<Rightarrow> (Inl e, t1)
                | Inr fs2 \<Rightarrow> (Inr (), t1 @ [fs2]))))"
    unfolding write_file_def Let_def dir_def [symmetric] temp_def [symmetric] rt
    by simp
  from assms wf obtain fs1 where fs1: "open_wb (fs_after fs t0) temp = Inr fs1"
    by (cases r; cases "open_wb (fs_after fs t0) temp") auto
  define t1 where
    "t1 = t0 @ [fs1] @ map (\<lambda>n. fs1(temp \<mapsto> File (take n data))) [1..<Suc (length data)]"
  from assms wf fs1 obtain fs2 where fs2: "os_rename (fs_after fs t1) temp path = Inr fs2"
    and t: "t = t1 @ [fs2]"
    by (cases r; cases "os_rename (fs_after fs t1) temp path") (auto simp: Let_def t1_def)
  have "fs1 temp = Some (File [])"
    using open_wb_changes [OF fs1] by simp
  then have "fs_after fs t1 temp = Some (File data)"
    using last_written [where f = fs1 and p = temp and fs = fs and t = t0 and data = data]
    by (simp add: t1_def)
  with os_rename_changes [OF fs2] have "fs2 path = Some (File data)" by auto
  moreover from fs2 have "path \<noteq> []"
    by (auto simp: os_rename_def split: option.splits node.splits if_splits)
  ultimately show ?thesis by (simp add: t fs_after_snoc)
qed

text \<open>The values of a store stay JSON-compatible through loading and setting.\<close>

lemma Settings_load_values_compatible:
  assumes "json_compatible (settings_values self)"
  shows "json_compatible (settings_values (snd (Settings_load_values self fs)))"
    and "settings_path (snd (Settings_load_values self fs)) = settings_path self"
  using assms json_loads_compatible
  by (auto simp: Settings_load_values_def split: sum.splits)

lemma Settings_load_values_loaded:
  "settings_values self \<noteq> PNone \<Longrightarrow> Settings_load_values self fs = (Inr (), self)"
  by (simp add: Settings_load_values_def)

text \<open>A fresh store reads the file that holds a serialised mapping.\<close>

lemma Settings_load_values_file:
  assumes "path \<noteq> []" and "fs path = Some (File (encode js))" and "json_loads js = Inr v"
  shows "Settings_load_values (Settings_init path) fs =
    (Inr (), \<lparr>settings_path = path, settings_values = v\<rparr>)"
  using assms
  by (simp add: Settings_load_values_def Settings_init_def os_path_exists_def read_file_def
      decode_encode)


text \<open>
  Claim C6. When \<open>set(key, value)\<close> with a JSON-compatible value returns, \<open>get(key)\<close> on
  the store as \<open>set\<close> left it returns the value; and the settings file then holds the
  serialised mapping, which decodes and parses back to the mapping, so that a fresh store
  on the same path, reading the file, returns the value for the key as well. (The store's
  mapping is JSON-compatible in every state that loading and setting can reach.)
\<close>

theorem settings_set_then_get:
  assumes "json_compatible v" and "json_compatible (settings_values self)"
    and "Settings_set self key v fs = (Inr (), self', t)"
  shows "Settings_get self' key dflt (fs_after fs t) = (Inr v, self')
    \<and> fst (Settings_get (Settings_init (settings_path self)) key dflt (fs_after fs t)) = Inr v
    \<and> (\<exists>js. json_dumps (settings_values self') = Inr js
          \<and> fs_after fs t (settings_path self) = Some (File (encode js))
          \<and> decode (encode js) = Inr js
          \<and> json_loads js = Inr (settings_values self'))"
proof -
  obtain r1 self1 where load: "Settings_load_values self fs = (r1, self1)"
    by (cases "Settings_load_values self fs")
  from assms(3) load have r1: "r1 = Inr ()"
    by (cases r1) (auto simp: Settings_set_def)
  from assms(3) load r1 obtain d where d: "settings_values self1 = PDict d"
    by (cases "settings_values self1") (auto simp: Settings_set_def)
  from assms(3) load r1 d
  have self': "self' = self1\<lparr>settings_values := PDict (dict_set d key v)\<rparr>"
    and save: "Settings_save_values self' fs = (Inr (), t)"
    by (auto simp: Settings_set_def Let_def split: prod.splits)
  have c1: "json_compatible (settings_values self1)" and p1: "settings_path self1 = settings_path self"
    using Settings_load_values_compatible [OF assms(2), of fs] load by simp_all
  have val: "settings_values self' = PDict (dict_set d key v)"
    and path: "settings_path self' = settings_path self"
    by (simp_all add: self' p1)
  from c1 d have "json_compatible (PDict d)" by (simp only:)
  then have "json_compatible (settings_values self')"
    unfolding val using assms(1) by (rule dict_set_compatible)
  from json_loads_dumps [OF this] obtain js where js: "json_dumps (settings_values self') = Inr js"
    and parsed: "json_loads js = Inr (settings_values self')"
    by blast
  from save js val have "write_file fs (settings_path self) (encode js) = (Inr (), t)"
    by (simp add: Settings_save_values_def path)
  from write_file_final [OF this]
  have on_disk: "fs_after fs t (settings_path self) = Some (File (encode js))"
    and ne: "settings_path self \<noteq> []"
    by simp_all
  have 1: "Settings_get self' key dflt (fs_after fs t) = (Inr v, self')"
    by (simp add: Settings_get_def Settings_load_values_loaded val dict_get_set)
  have "Settings_load_values (Settings_init (settings_path self)) (fs_after fs t) =
      (Inr (), \<lparr>settings_path = settings_path self, settings_values = settings_values self'\<rparr>)"
    using ne on_disk parsed by (rule Settings_load_values_file)
  then have 2: "fst (Settings_get (Settings_init (settings_path self)) key dflt (fs_after fs t)) = Inr v"
    by (simp add: Settings_get_def val dict_get_set)
  from 1 2 js on_disk parsed show ?thesis
    by (simp add: decode_encode)
qed

theorem settings_set_then_get_witness:
  "json_compatible (PStr demo_key)
   \<and> json_compatible (settings_values (Settings_init ''/home/u/opt/etc/prowl.json''))
   \<and> fst (Settings_set (Settings_init ''/home/u/opt/etc/prowl.json'') ''default-api-key''
          (PStr demo_key) demo_home) = Inr ()
   \<and> fst (Settings_get (Settings_init ''/home/u/opt/etc/prowl.json'') ''default-api-key'' PNone
          (fs_after demo_home
             (snd (snd (Settings_set (Settings_init ''/home/u/opt/etc/prowl.json'')
                ''default-api-key'' (PStr demo_key) demo_home))))) = Inr (PStr demo_key)"
proof -
  let ?S = "Settings_init ''/home/u/opt/etc/prowl.json''"
  let ?X = "Settings_set ?S ''default-api-key'' (PStr demo_key) demo_home"
  have e: "fst ?X = Inr ()"
    by code_simp
  have c: "json_compatible (PStr demo_key)" "json_compatible (settings_values ?S)"
    by (simp_all add: Settings_init_def)
  have "?X = (fst ?X, fst (snd ?X), snd (snd ?X))"
    by simp
  then have x: "?X = (Inr (), fst (snd ?X), snd (snd ?X))"
    by (simp only: e)
  have p: "settings_path ?S = ''/home/u/opt/etc/prowl.json''"
    by (simp add: Settings_init_def)
  from settings_set_then_get [OF c x, of PNone] e c show ?thesis
    by (simp only: p simp_thms)
qed

end
